theory Spec2Isabelle
  imports Complex_Main "HOL-Library.Sublist"
begin

section \<open>Python values\<close>

text \<open>
  A Python \<open>str\<close> is a sequence of Unicode code points; it is modelled as a list of
  natural numbers, one per code point.  String literals of the source are written with
  \<open>u\<close>, which maps an ASCII literal to its code points.
\<close>

type_synonym pystr = "nat list"

definition u :: "string \<Rightarrow> pystr" where
  "u s = map of_char s"

text \<open>
  The exceptions the modelled functions can raise.  The repository defines no exception
  class of its own; these are the built-in ones reachable from its arithmetic.
\<close>

datatype py_error = ZeroDivisionError | ValueError | OverflowError

text \<open>
  \<open>str.split()\<close>, \<open>str.strip()\<close> and the regular expression class \<open>\s\<close> (on \<open>str\<close>
  patterns) all use the same test, CPython's \<open>Py_UNICODE_ISSPACE\<close>.
\<close>

definition is_space :: "nat \<Rightarrow> bool" where
  "is_space c = (c \<in> set [9, 10, 11, 12, 13, 28, 29, 30, 31, 32, 133, 160, 5760,
      8192, 8193, 8194, 8195, 8196, 8197, 8198, 8199, 8200, 8201, 8202,
      8232, 8233, 8239, 8287, 12288])"

text \<open>
  \<open>text.split()\<close> without arguments: a left-to-right scan that cuts at every run of
  whitespace and never yields an empty word.  \<open>cur\<close> is the word being read.
\<close>

fun split_scan :: "pystr \<Rightarrow> pystr \<Rightarrow> pystr list" where
  "split_scan cur [] = (if cur = [] then [] else [cur])"
| "split_scan cur (c # cs) =
     (if is_space c then (if cur = [] then split_scan [] cs else cur # split_scan [] cs)
      else split_scan (cur @ [c]) cs)"

definition py_split :: "pystr \<Rightarrow> pystr list" where
  "py_split s = split_scan [] s"

text \<open>\<open>sep.join(words)\<close>.\<close>

fun py_join :: "pystr \<Rightarrow> pystr list \<Rightarrow> pystr" where
  "py_join sep [] = []"
| "py_join sep [w] = w"
| "py_join sep (w # ws) = w @ sep @ py_join sep ws"

text \<open>
  \<open>xs[start:stop]\<close>: a negative index counts from the end, and every index is clamped
  to the sequence, so a slice never raises; \<open>stop\<close> at or before \<open>start\<close> gives the empty
  sequence.
\<close>

definition py_slice_index :: "nat \<Rightarrow> int \<Rightarrow> nat" where
  "py_slice_index len i =
     (if i < 0 then (if i + int len < 0 then 0 else nat (i + int len))
      else if int len \<le> i then len else nat i)"

definition py_slice :: "'a list \<Rightarrow> int \<Rightarrow> int \<Rightarrow> 'a list" where
  "py_slice xs start stop =
     (let lo = py_slice_index (length xs) start;
          hi = py_slice_index (length xs) stop
      in take (hi - lo) (drop lo xs))"

text \<open>
  \<open>s.replace(old, new)\<close> for a non-empty \<open>old\<close>: the occurrences are found from the left
  and do not overlap.
\<close>

fun py_replace :: "'a list \<Rightarrow> 'a list \<Rightarrow> 'a list \<Rightarrow> 'a list" where
  "py_replace old new [] = []"
| "py_replace old new (c # cs) =
     (if old \<noteq> [] \<and> prefix old (c # cs)
      then new @ py_replace old new (drop (length old - 1) cs)
      else c # py_replace old new cs)"

text \<open>\<open>s.strip()\<close>.\<close>

definition py_strip :: "pystr \<Rightarrow> pystr" where
  "py_strip s = rev (dropWhile is_space (rev (dropWhile is_space s)))"

text \<open>\<open>str(i)\<close> for an index \<open>i \<ge> 0\<close>, as the f-string formats it: decimal digits.\<close>

fun py_str :: "nat \<Rightarrow> pystr" where
  "py_str n = (if n < 10 then [48 + n] else py_str (n div 10) @ [48 + n mod 10])"

declare py_str.simps [simp del]

text \<open>\<open>min(xs)\<close> and \<open>max(xs)\<close> raise \<open>ValueError\<close> on an empty sequence.\<close>

definition py_min :: "nat list \<Rightarrow> py_error + nat" where
  "py_min xs = (case xs of [] \<Rightarrow> Inl ValueError | x # rest \<Rightarrow> Inr (fold min rest x))"

definition py_max :: "nat list \<Rightarrow> py_error + nat" where
  "py_max xs = (case xs of [] \<Rightarrow> Inl ValueError | x # rest \<Rightarrow> Inr (fold max rest x))"

section \<open>Regular expressions\<close>

text \<open>
  The five patterns of \<open>clean_gutenberg\<close> use literal characters, \<open>\s\<close>, the dot, the
  quantifiers \<open>*\<close>, \<open>+\<close> and \<open>*?\<close> on one character, and one alternation of two words.
  A pattern is a list of nodes.  \<open>CI c\<close> is the literal \<open>c\<close> of a pattern compiled with
  \<open>re.IGNORECASE\<close>; the dot is under \<open>re.DOTALL\<close> wherever the source uses it.
\<close>

datatype atom = Lit nat | CI nat | Space | Dot

datatype node = One atom | Star atom | Plus atom | LazyStar atom | Alt "atom list" "atom list"

definition ascii_lower :: "nat \<Rightarrow> nat" where
  "ascii_lower c = (if 65 \<le> c \<and> c \<le> 90 then c + 32 else c)"

text \<open>
  The code points an ASCII literal matches under \<open>re.IGNORECASE\<close> on a \<open>str\<close> pattern:
  a character matches when its simple lower-case form is the literal's, or one that the
  compiler lists as equivalent.  For a letter these are its two ASCII forms, and besides
  them the dotted capital and the dotless small i for \<open>i\<close>, the long s for \<open>s\<close>, and the
  Kelvin sign for \<open>k\<close>.  Any other ASCII character matches itself only.
\<close>

definition ci_variants :: "nat \<Rightarrow> nat list" where
  "ci_variants c =
     (let l = ascii_lower c
      in if 97 \<le> l \<and> l \<le> 122
         then [l, l - 32] @
              (if l = 105 then [304, 305] else if l = 115 then [383]
               else if l = 107 then [8490] else [])
         else [c])"

fun atom_match :: "atom \<Rightarrow> nat \<Rightarrow> bool" where
  "atom_match (Lit c) x = (x = c)"
| "atom_match (CI c) x = (x \<in> set (ci_variants c))"
| "atom_match Space x = is_space x"
| "atom_match Dot x = True"

fun node_weight :: "node \<Rightarrow> nat" where
  "node_weight (One a) = 1"
| "node_weight (Star a) = 1"
| "node_weight (Plus a) = 3"
| "node_weight (LazyStar a) = 1"
| "node_weight (Alt p q) = Suc (length p + length q)"

text \<open>
  Matching at the head of a string, by backtracking in the order of Python's engine: a
  greedy quantifier tries the longest run first, a lazy one the shortest, an alternation
  its left branch.  The result is what is left of the string after the first match found,
  or \<open>None\<close>.
\<close>

function (sequential) rmatch :: "node list \<Rightarrow> pystr \<Rightarrow> pystr option" where
  "rmatch [] s = Some s"
| "rmatch (One a # r) [] = None"
| "rmatch (One a # r) (x # xs) = (if atom_match a x then rmatch r xs else None)"
| "rmatch (Star a # r) [] = rmatch r []"
| "rmatch (Star a # r) (x # xs) =
     (if atom_match a x
      then (case rmatch (Star a # r) xs of Some t \<Rightarrow> Some t | None \<Rightarrow> rmatch r (x # xs))
      else rmatch r (x # xs))"
| "rmatch (Plus a # r) s = rmatch (One a # Star a # r) s"
| "rmatch (LazyStar a # r) [] = rmatch r []"
| "rmatch (LazyStar a # r) (x # xs) =
     (case rmatch r (x # xs) of
        Some t \<Rightarrow> Some t
      | None \<Rightarrow> (if atom_match a x then rmatch (LazyStar a # r) xs else None))"
| "rmatch (Alt p q # r) s =
     (case rmatch (map One p @ r) s of Some t \<Rightarrow> Some t | None \<Rightarrow> rmatch (map One q @ r) s)"
  by pat_completeness auto
termination
  by (relation "measures [\<lambda>(r, s). sum_list (map node_weight r), \<lambda>(r, s). length s]")
     (auto simp: comp_def sum_list_triv)

text \<open>
  \<open>re.search\<close>: the match at the leftmost position that has one, as the pair of
  \<open>match.start()\<close> and \<open>match.end()\<close>.
\<close>

fun re_search_from :: "node list \<Rightarrow> nat \<Rightarrow> pystr \<Rightarrow> (nat \<times> nat) option" where
  "re_search_from re pos [] =
     (case rmatch re [] of Some t \<Rightarrow> Some (pos, pos) | None \<Rightarrow> None)"
| "re_search_from re pos (x # xs) =
     (case rmatch re (x # xs) of
        Some t \<Rightarrow> Some (pos, pos + (length (x # xs) - length t))
      | None \<Rightarrow> re_search_from re (Suc pos) xs)"

definition re_search :: "node list \<Rightarrow> pystr \<Rightarrow> (nat \<times> nat) option" where
  "re_search re s = re_search_from re 0 s"

text \<open>
  \<open>re.sub(pattern, repl, s)\<close> for a pattern that consumes at least one character, as the
  three patterns substituted in the source do: the matches are found from the left, do
  not overlap, and each is replaced by \<open>repl\<close>.
\<close>

fun re_sub :: "node list \<Rightarrow> pystr \<Rightarrow> pystr \<Rightarrow> pystr" where
  "re_sub re repl [] = []"
| "re_sub re repl (x # xs) =
     (case rmatch re (x # xs) of
        Some t \<Rightarrow> (if length t \<le> length xs then repl @ re_sub re repl t
                   else x # re_sub re repl xs)
      | None \<Rightarrow> x # re_sub re repl xs)"

section \<open>Floating point: \<open>int(c * n)\<close>\<close>

text \<open>
  \<open>int(0.1 * n)\<close> and \<open>int(0.9 * n)\<close> multiply the length \<open>n\<close>, converted to a double, by a
  double constant and truncate.  A double has 53 significant bits and every operation
  rounds to the nearest one, ties to even.  \<open>round53\<close> is that rounding on a natural
  number; it commutes with a scaling by a power of two, which is how the product with
  the constant \<open>m / 2 ^ k\<close> is rounded.  The conversion of \<open>n\<close> raises \<open>OverflowError\<close> when
  \<open>n\<close> is beyond the doubles.
\<close>

fun bit_length :: "nat \<Rightarrow> nat" where
  "bit_length n = (if n = 0 then 0 else Suc (bit_length (n div 2)))"

declare bit_length.simps [simp del]

definition round53 :: "nat \<Rightarrow> nat" where
  "round53 n =
     (let len = bit_length n
      in if len \<le> 53 then n
         else (let sh = len - 53; q = n div 2 ^ sh; r = n mod 2 ^ sh; half = 2 ^ (sh - 1)
               in (if half < r \<or> (r = half \<and> odd q) then q + 1 else q) * 2 ^ sh))"

definition py_int_mul :: "nat \<Rightarrow> nat \<Rightarrow> nat \<Rightarrow> py_error + int" where
  "py_int_mul m k n =
     (if 2 ^ 1024 - 2 ^ 970 \<le> n then Inl OverflowError
      else Inr (int (round53 (m * round53 n) div 2 ^ k)))"

text \<open>The doubles \<open>0.1 = 3602879701896397 / 2 ^ 55\<close> and \<open>0.9 = 8106479329266893 / 2 ^ 53\<close>.\<close>

definition int_tenth :: "nat \<Rightarrow> py_error + int" where
  "int_tenth n = py_int_mul 3602879701896397 55 n"

definition int_nine_tenths :: "nat \<Rightarrow> py_error + int" where
  "int_nine_tenths n = py_int_mul 8106479329266893 53 n"

text \<open>
  \<open>a / b\<close> on integers is true division: it raises \<open>ZeroDivisionError\<close> for \<open>b = 0\<close>,
  and otherwise returns the double nearest to the quotient, ties to even, or raises
  \<open>OverflowError\<close> when that is beyond the doubles.  A double is written here as the
  rational number it stands for, \<open>m * 2 ^ e\<close> with \<open>m < 2 ^ 53\<close> and \<open>- 1074 \<le> e\<close>.
  \<open>quot_exponent a b\<close> is the exponent of the leading bit of \<open>a / b\<close>, \<open>round_half_even n d\<close>
  is \<open>n / d\<close> rounded to the nearest natural number, and \<open>double_quot a b\<close> is the
  rounded quotient of two natural numbers, \<open>b\<close> positive.
\<close>

definition pow2 :: "int \<Rightarrow> rat" where
  "pow2 e = (if 0 \<le> e then 2 ^ nat e else 1 / 2 ^ nat (- e))"

definition round_half_even :: "nat \<Rightarrow> nat \<Rightarrow> nat" where
  "round_half_even n d =
     (let q = n div d; r = n mod d
      in if d < 2 * r \<or> (2 * r = d \<and> odd q) then q + 1 else q)"

definition quot_exponent :: "nat \<Rightarrow> nat \<Rightarrow> int" where
  "quot_exponent a b =
     (let d = int (bit_length a) - int (bit_length b)
      in if (if 0 \<le> d then b * 2 ^ nat d \<le> a else b \<le> a * 2 ^ nat (- d)) then d
         else d - 1)"

definition double_quot :: "nat \<Rightarrow> nat \<Rightarrow> rat" where
  "double_quot a b =
     (if a = 0 then 0
      else (let e = max (quot_exponent a b - 52) (- 1074);
                m = (if 0 \<le> e then round_half_even a (b * 2 ^ nat e)
                     else round_half_even (a * 2 ^ nat (- e)) b)
            in of_nat m * pow2 e))"

definition py_truediv :: "int \<Rightarrow> int \<Rightarrow> py_error + rat" where
  "py_truediv a b =
     (if b = 0 then Inl ZeroDivisionError
      else (let q = double_quot (nat \<bar>a\<bar>) (nat \<bar>b\<bar>)
            in if 2 ^ 1024 \<le> q then Inl OverflowError
               else Inr (if (a < 0) = (b < 0) then q else - q)))"

section \<open>The boilerplate stripper: \<open>clean_gutenberg\<close>\<close>

definition ci :: "string \<Rightarrow> node list" where
  "ci s = map (\<lambda>c. One (CI (of_char c))) s"

text \<open>
  The start and end patterns differ in one word.  Both are searched with
  \<open>re.IGNORECASE | re.DOTALL\<close>.
\<close>

definition marker_pattern :: "string \<Rightarrow> node list" where
  "marker_pattern kw =
     ci ''***'' @ [Star Space] @ ci kw @ [Plus Space] @ ci ''OF'' @ [Plus Space] @
     [Alt (map (\<lambda>c. CI (of_char c)) ''THE'') (map (\<lambda>c. CI (of_char c)) ''THIS'')] @
     [Plus Space] @ ci ''PROJECT'' @ [Plus Space] @ ci ''GUTENBERG'' @ [Plus Space] @
     ci ''EBOOK'' @ [LazyStar Dot] @ ci ''***''"

definition start_pattern :: "node list" where
  "start_pattern = marker_pattern ''START''"

definition end_pattern :: "node list" where
  "end_pattern = marker_pattern ''END''"

text \<open>The first statement: both carriage-return forms of a line end become a newline.\<close>

definition normalize_newlines :: "pystr \<Rightarrow> pystr" where
  "normalize_newlines text =
     py_replace (u [CHR 0x0D]) (u [CHR 0x0A])
       (py_replace (u [CHR 0x0D, CHR 0x0A]) (u [CHR 0x0A]) text)"

text \<open>
  \<open>clean_gutenberg\<close> writes one line to the standard output on each branch of its
  \<open>if\<close>/\<open>else\<close>: the report of the extracted length when both markers are found, and a
  warning otherwise.  The lines are kept as the strings handed to \<open>print\<close>; their first
  characters are the code points 9989, and 9888 followed by 65039.
\<close>

definition found_report :: "nat \<Rightarrow> pystr" where
  "found_report n = [9989] @ u '' Found markers, extracted '' @ py_str n @ u '' characters''"

definition fallback_warning :: pystr where
  "fallback_warning =
     [9888, 65039] @
     u '' Could not find explicit START/END markers, using middle 80% fallback.''"

text \<open>
  The \<open>if\<close>/\<open>else\<close>, for the text with its line ends normalised: the lines printed, and
  the value of \<open>story_text\<close> after it or the exception raised in it.  With both markers
  found \<open>story_text\<close> is the span between them, stripped, and the report is printed after
  it is computed; otherwise the warning is printed first and \<open>story_text\<close> is the slice
  from \<open>int(0.1 * n)\<close> to \<open>int(0.9 * n)\<close>.
\<close>

definition story_text_run :: "pystr \<Rightarrow> pystr list \<times> (py_error + pystr)" where
  "story_text_run text =
     (case (re_search start_pattern text, re_search end_pattern text) of
        (Some start_match, Some end_match) \<Rightarrow>
          (let start_pos = snd start_match; end_pos = fst end_match;
               story = py_strip (py_slice text (int start_pos) (int end_pos))
           in ([found_report (length story)], Inr story))
      | _ \<Rightarrow>
          ([fallback_warning],
           (let n = length text
            in case int_tenth n of
                 Inl e \<Rightarrow> Inl e
               | Inr lo \<Rightarrow>
                   (case int_nine_tenths n of
                      Inl e \<Rightarrow> Inl e
                    | Inr hi \<Rightarrow> Inr (py_slice text lo hi)))))"

definition story_text :: "pystr \<Rightarrow> py_error + pystr" where
  "story_text text = snd (story_text_run text)"

text \<open>
  The statements after the \<open>if\<close>/\<open>else\<close>: underscores removed, whitespace runs collapsed
  to one space, the ends stripped, and the fragment \<open>contents I.\<close> removed.
\<close>

definition post_process :: "pystr \<Rightarrow> pystr" where
  "post_process story =
     (let s1 = re_sub [Plus (Lit 95)] [] story;
          s2 = re_sub [Plus Space] (u '' '') s1;
          s3 = py_strip s2
      in re_sub (ci ''contents'' @ [Plus Space] @ ci ''I.'') [] s3)"

text \<open>
  A call of \<open>clean_gutenberg\<close>: the lines it prints, and the string it returns or the
  exception that ends it.  \<open>clean_gutenberg\<close> is the second component, what the caller
  receives.
\<close>

definition clean_gutenberg_run :: "pystr \<Rightarrow> pystr list \<times> (py_error + pystr)" where
  "clean_gutenberg_run text =
     (case story_text_run (normalize_newlines text) of
        (printed, Inl e) \<Rightarrow> (printed, Inl e)
      | (printed, Inr story) \<Rightarrow> (printed, Inr (post_process story)))"

definition clean_gutenberg :: "pystr \<Rightarrow> py_error + pystr" where
  "clean_gutenberg text = snd (clean_gutenberg_run text)"

section \<open>The chunker: \<open>chunk_text\<close>\<close>

text \<open>
  The \<open>while start < len(words)\<close> loop of \<open>chunk_text\<close>, with the loop variables \<open>start\<close>
  and \<open>chunks\<close> as arguments.  The parameters are Python integers, with no check on them
  in the source, so the loop need not end: the result is \<open>None\<close> when it does not.
\<close>

partial_function (option) chunk_text_loop ::
  "pystr list \<Rightarrow> int \<Rightarrow> int \<Rightarrow> int \<Rightarrow> int \<Rightarrow> pystr list \<Rightarrow> pystr list option" where
  "chunk_text_loop words max_words min_words overlap start chunks =
     (if start < int (length words) then
        (let stop = start + max_words;
             chunk_words = py_slice words start stop;
             chunks' = (if min_words \<le> int (length chunk_words)
                        then chunks @ [py_join (u '' '') chunk_words] else chunks)
         in chunk_text_loop words max_words min_words overlap
              (start + (max_words - overlap)) chunks')
      else Some chunks)"

definition chunk_text :: "pystr \<Rightarrow> int \<Rightarrow> int \<Rightarrow> int \<Rightarrow> pystr list option" where
  "chunk_text text max_words min_words overlap =
     chunk_text_loop (py_split text) max_words min_words overlap 0 []"

section \<open>Processing the books: \<open>process_books\<close>\<close>

text \<open>A record of a chunk file: the dictionary with the keys \<open>id\<close> and \<open>text\<close>.\<close>

record chunk_record =
  rec_id :: pystr
  rec_text :: pystr

definition json_data :: "pystr \<Rightarrow> pystr list \<Rightarrow> chunk_record list" where
  "json_data stem chunks =
     map (\<lambda>(i, chunk). \<lparr>rec_id = stem @ u ''_'' @ py_str i, rec_text = chunk\<rparr>)
       (enumerate 0 chunks)"



section \<open>The dataset auditor\<close>

text \<open>
  \<open>basic_stats\<close> prints four values and returns nothing; the model returns what it prints,
  or the exception that ends it.  The statements run in the order of the source: the
  division first, then \<open>min\<close>, then \<open>max\<close>.
\<close>

record stats =
  stat_total :: nat
  stat_avg :: rat
  stat_min :: nat
  stat_max :: nat

definition basic_stats :: "(pystr \<times> pystr) list \<Rightarrow> py_error + stats" where
  "basic_stats chunks =
     (let word_counts = map (\<lambda>(_, text). length (py_split text)) chunks;
          total_chunks = length chunks
      in case py_truediv (int (sum_list word_counts)) (int total_chunks) of
           Inl e \<Rightarrow> Inl e
         | Inr avg_words \<Rightarrow>
             (case py_min word_counts of
                Inl e \<Rightarrow> Inl e
              | Inr min_words \<Rightarrow>
                  (case py_max word_counts of
                     Inl e \<Rightarrow> Inl e
                   | Inr max_words \<Rightarrow>
                       Inr \<lparr>stat_total = total_chunks, stat_avg = avg_words,
                            stat_min = min_words, stat_max = max_words\<rparr>)))"

text \<open>
  \<open>collections.Counter(texts)\<close>: a dictionary from each text to its number of
  occurrences, its keys in the order of their first occurrence.
\<close>

fun counter_add :: "'a \<Rightarrow> ('a \<times> nat) list \<Rightarrow> ('a \<times> nat) list" where
  "counter_add x [] = [(x, 1)]"
| "counter_add x ((k, n) # kvs) =
     (if k = x then (k, n + 1) # kvs else (k, n) # counter_add x kvs)"

definition Counter :: "'a list \<Rightarrow> ('a \<times> nat) list" where
  "Counter xs = foldl (\<lambda>counter x. counter_add x counter) [] xs"

text \<open>
  \<open>detect_duplicates\<close> builds the list \<open>duplicates\<close> and prints a preview of its first
  \<open>top_n\<close> entries, each with its count and the first 100 characters of its text, newlines
  replaced by spaces.  The model returns both: the list, and the preview lines.
\<close>

definition snippet :: "pystr \<Rightarrow> pystr" where
  "snippet text = py_replace (u [CHR 0x0A]) (u '' '') (py_slice text 0 100)"

definition detect_duplicates ::
  "(pystr \<times> pystr) list \<Rightarrow> int \<Rightarrow> (pystr \<times> nat) list \<times> (nat \<times> pystr) list" where
  "detect_duplicates chunks top_n =
     (let texts = map (\<lambda>(_, text). text) chunks;
          counter = Counter texts;
          duplicates = filter (\<lambda>(text, count). 1 < count) counter
      in (duplicates,
          map (\<lambda>(text, count). (count, snippet text)) (py_slice duplicates 0 top_n)))"

section \<open>Notions used in the statements\<close>

text \<open>The last \<open>n\<close> elements of a list (all of it when it has fewer).\<close>

definition last_words :: "nat \<Rightarrow> 'a list \<Rightarrow> 'a list" where
  "last_words n xs = drop (length xs - n) xs"

text \<open>A word as \<open>split\<close> produces it: not empty, and free of whitespace.\<close>

definition is_word :: "pystr \<Rightarrow> bool" where
  "is_word w = (w \<noteq> [] \<and> list_all (\<lambda>c. \<not> is_space c) w)"

text \<open>
  For the proofs: the windows the loop reads from word index \<open>s\<close> on when it advances by
  \<open>step\<close> words, and those of them it emits.
\<close>

function windows_from :: "'a list \<Rightarrow> int \<Rightarrow> nat \<Rightarrow> nat \<Rightarrow> 'a list list" where
  "windows_from ws mx step s =
     (if s < length ws \<and> 0 < step
      then py_slice ws (int s) (int s + mx) # windows_from ws mx step (s + step) else [])"
  by pat_completeness auto
termination
  by (relation "measure (\<lambda>(ws, mx, step, s). length ws - s)") auto

declare windows_from.simps [simp del]

definition emitted :: "'a list \<Rightarrow> int \<Rightarrow> int \<Rightarrow> nat \<Rightarrow> nat \<Rightarrow> 'a list list" where
  "emitted ws mx mn step s = filter (\<lambda>w. mn \<le> int (length w)) (windows_from ws mx step s)"


text \<open>
  For stating the marker form: a word that matches a pattern word up to case, what
  follows the first \<open>***\<close> of a string, and the text of a marker line
  \<open>*** w1 w2 w3 w4 w5 w6 x ***\<close> with single spaces.
\<close>

definition ci_eq :: "pystr \<Rightarrow> string \<Rightarrow> bool" where
  "ci_eq w s = list_all2 (\<lambda>x c. x \<in> set (ci_variants (of_char c))) w s"

fun after_stars :: "pystr \<Rightarrow> pystr option" where
  "after_stars (a # b # c # s) =
     (if a = 42 \<and> b = 42 \<and> c = 42 then Some s else after_stars (b # c # s))"
| "after_stars s = None"

definition marker_words :: "string \<Rightarrow> pystr list \<Rightarrow> bool" where
  "marker_words kw ws =
     (list_all2 ci_eq ws [kw, ''OF'', ''THE'', ''PROJECT'', ''GUTENBERG'', ''EBOOK''] \<or>
      list_all2 ci_eq ws [kw, ''OF'', ''THIS'', ''PROJECT'', ''GUTENBERG'', ''EBOOK''])"

definition marker_text :: "pystr list \<Rightarrow> pystr \<Rightarrow> pystr" where
  "marker_text ws x = u ''***'' @ concat (map (\<lambda>w. 32 # w) ws) @ [32] @ x @ u '' ***''"

definition upper_word :: "string \<Rightarrow> bool" where
  "upper_word s = (s \<noteq> [] \<and> 65 \<le> (of_char (hd s) :: nat) \<and> (of_char (hd s) :: nat) \<le> 90)"

text \<open>The number a string of decimal digits stands for, read from the left.\<close>

fun decode_digits :: "nat \<Rightarrow> pystr \<Rightarrow> nat" where
  "decode_digits acc [] = acc"
| "decode_digits acc (d # ds) = decode_digits (10 * acc + (d - 48)) ds"

section \<open>Properties of the chunker\<close>

subsection \<open>Splitting and joining\<close>

lemma split_scan_words:
  "list_all (\<lambda>c. \<not> is_space c) cur \<Longrightarrow> list_all is_word (split_scan cur s)"
  by (induction s arbitrary: cur) (auto simp: is_word_def)

lemma py_split_words: "list_all is_word (py_split s)"
  unfolding py_split_def by (rule split_scan_words) simp

lemma split_scan_word:
  "list_all (\<lambda>c. \<not> is_space c) w \<Longrightarrow> split_scan cur (w @ s) = split_scan (cur @ w) s"
  by (induction w arbitrary: cur) auto

lemma space_is_space: "is_space 32"
  by (simp add: is_space_def)

lemma u_space: "u '' '' = [32]"
  by (simp add: u_def)

lemma split_scan_join:
  "list_all is_word ws \<Longrightarrow> split_scan [] (py_join [32] ws) = ws"
proof (induction ws rule: induct_list012)
  case 1
  show ?case by simp
next
  case (2 w)
  then show ?case
    using split_scan_word[of w "[]" "[]"] by (simp add: is_word_def)
next
  case (3 w v ws)
  then have w: "w \<noteq> []" "list_all (\<lambda>c. \<not> is_space c) w"
    by (simp_all add: is_word_def)
  have "split_scan [] (w @ 32 # py_join [32] (v # ws)) = split_scan w (32 # py_join [32] (v # ws))"
    using split_scan_word[OF w(2), of "[]"] by simp
  also have "\<dots> = w # split_scan [] (py_join [32] (v # ws))"
    using w(1) by (simp add: space_is_space)
  finally show ?case using 3 by simp
qed

lemma py_split_join:
  "list_all is_word ws \<Longrightarrow> py_split (py_join (u '' '') ws) = ws"
  by (simp add: py_split_def u_space split_scan_join)

subsection \<open>Slices\<close>

lemma py_slice_index_nat: "py_slice_index n (int k) = min n k"
  by (simp add: py_slice_index_def)

lemma py_slice_nat: "py_slice xs (int lo) (int hi) = take (hi - lo) (drop lo xs)"
  unfolding py_slice_def Let_def py_slice_index_nat
  by (cases "lo \<le> length xs") (simp_all add: min_def)

lemma py_slice_nonneg:
  "py_slice xs (int s) (int s + int mx) = take mx (drop s xs)"
  using py_slice_nat[of xs s "s + mx"] by simp

lemma py_slice_length_le: "length (py_slice xs start stop) \<le> length xs"
  by (simp add: py_slice_def Let_def)

subsection \<open>The loop, when the window advances\<close>

lemma emitted_step:
  assumes "s < length ws" "0 < step"
  shows "emitted ws mx mn step s =
     (if mn \<le> int (length (py_slice ws (int s) (int s + mx)))
      then py_slice ws (int s) (int s + mx) # emitted ws mx mn step (s + step)
      else emitted ws mx mn step (s + step))"
  unfolding emitted_def using assms by (subst windows_from.simps) simp

lemma emitted_done:
  assumes "\<not> s < length ws"
  shows "emitted ws mx mn step s = []"
  unfolding emitted_def using assms by (subst windows_from.simps) simp

lemma chunk_text_loop_windows:
  assumes "0 < step"
  shows "chunk_text_loop ws mx mn (mx - int step) (int s) acc =
         Some (acc @ map (py_join (u '' '')) (emitted ws mx mn step s))"
  using assms
proof (induction "length ws - s" arbitrary: s acc rule: less_induct)
  case less
  show ?case
  proof (cases "s < length ws")
    case False
    then show ?thesis
      by (subst chunk_text_loop.simps) (simp add: emitted_done)
  next
    case True
    have st: "int s + (mx - (mx - int step)) = int (s + step)" by simp
    have "length ws - (s + step) < length ws - s" using True less.prems by simp
    note IH = less.hyps[OF this less.prems]
    have lt: "int s < int (length ws)" using True by simp
    show ?thesis
      apply (subst chunk_text_loop.simps)
      apply (simp only: lt if_True Let_def st IH emitted_step[OF True less.prems])
      apply simp
      done
  qed
qed

lemma chunk_text_emitted:
  assumes "overlap < max_words"
  shows "chunk_text text max_words min_words overlap =
         Some (map (py_join (u '' ''))
           (emitted (py_split text) max_words min_words (nat (max_words - overlap)) 0))"
proof -
  have "0 < nat (max_words - overlap)" using assms by simp
  from chunk_text_loop_windows[OF this, of "py_split text" max_words min_words 0 "[]"]
  show ?thesis using assms by (simp add: chunk_text_def)
qed

lemma chunk_text_no_words:
  "py_split text = [] \<Longrightarrow> chunk_text text max_words min_words overlap = Some []"
  unfolding chunk_text_def by (subst chunk_text_loop.simps) simp

subsection \<open>The loop, when the window does not advance\<close>

lemma chunk_text_loop_returns_advances:
  assumes "chunk_text_loop ws mx mn ov start acc = Some r"
  shows "\<not> (mx \<le> ov \<and> start < int (length ws))"
proof (rule chunk_text_loop.raw_induct
    [where P = "\<lambda>ws mx mn ov start acc r. \<not> (mx \<le> ov \<and> start < int (length ws))",
     OF _ assms], goal_cases)
  case (1 loop ws mx mn ov start acc r)
  show ?case
  proof
    assume a: "mx \<le> ov \<and> start < int (length ws)"
    then have b: "start + (mx - ov) < int (length ws)" by simp
    from 1(2) a obtain acc' where "loop ws mx mn ov (start + (mx - ov)) acc' = Some r"
      by (simp add: Let_def)
    from 1(1)[OF this] a b show False by simp
  qed
qed

lemma chunk_text_loop_diverges:
  "mx \<le> ov \<Longrightarrow> start < int (length ws) \<Longrightarrow> chunk_text_loop ws mx mn ov start acc = None"
  using chunk_text_loop_returns_advances[of ws mx mn ov start acc]
  by (cases "chunk_text_loop ws mx mn ov start acc") auto

lemma chunk_text_diverges:
  "max_words \<le> overlap \<Longrightarrow> py_split text \<noteq> [] \<Longrightarrow>
   chunk_text text max_words min_words overlap = None"
  unfolding chunk_text_def by (rule chunk_text_loop_diverges) simp_all

subsection \<open>Properties of the windows\<close>

lemma windows_from_slices:
  "w \<in> set (windows_from ws mx step s) \<Longrightarrow>
   \<exists>t. s \<le> t \<and> t < length ws \<and> w = py_slice ws (int t) (int t + mx)"
proof (induction ws mx step s rule: windows_from.induct)
  case (1 ws mx step s)
  show ?case
  proof (cases "s < length ws \<and> 0 < step")
    case False
    with "1.prems" show ?thesis by (subst (asm) windows_from.simps) simp
  next
    case True
    from "1.prems" True
    have "w = py_slice ws (int s) (int s + mx) \<or> w \<in> set (windows_from ws mx step (s + step))"
      by (subst (asm) windows_from.simps) simp
    then show ?thesis
    proof
      assume "w = py_slice ws (int s) (int s + mx)"
      with True show ?thesis by blast
    next
      assume "w \<in> set (windows_from ws mx step (s + step))"
      from "1.IH"[OF True this] obtain t where
        "s + step \<le> t" "t < length ws" "w = py_slice ws (int t) (int t + mx)" by blast
      then show ?thesis by (intro exI[of _ t]) simp
    qed
  qed
qed

lemma emitted_slices:
  "w \<in> set (emitted ws mx mn step s) \<Longrightarrow>
   mn \<le> int (length w) \<and> (\<exists>t. s \<le> t \<and> t < length ws \<and> w = py_slice ws (int t) (int t + mx))"
  unfolding emitted_def using windows_from_slices[of w ws mx step s] by simp

lemma emitted_short_input:
  assumes "int (length ws) < mn"
  shows "emitted ws mx mn step s = []"
proof -
  have "\<not> mn \<le> int (length w)" if "w \<in> set (windows_from ws mx step s)" for w
  proof -
    from windows_from_slices[OF that] obtain t where "w = py_slice ws (int t) (int t + mx)"
      by blast
    then have "length w \<le> length ws" by (simp add: py_slice_length_le)
    with assms show ?thesis by simp
  qed
  then show ?thesis unfolding emitted_def by (simp add: filter_empty_conv)
qed

lemma emitted_short_window:
  assumes "int (length (take mx (drop s ws))) < mn"
  shows "emitted ws (int mx) mn step s = []"
proof -
  have "\<not> mn \<le> int (length w)" if "w \<in> set (windows_from ws (int mx) step s)" for w
  proof -
    from windows_from_slices[OF that] obtain t where
      t: "s \<le> t" "w = py_slice ws (int t) (int t + int mx)" by blast
    then have "length w \<le> length (take mx (drop s ws))"
      by (simp add: py_slice_nonneg)
    with assms show ?thesis by linarith
  qed
  then show ?thesis unfolding emitted_def by (simp add: filter_empty_conv)
qed

lemma emitted_head:
  assumes "0 < step" "emitted ws (int mx) mn step s \<noteq> []"
  shows "s < length ws \<and> mn \<le> int (length (take mx (drop s ws))) \<and>
         emitted ws (int mx) mn step s = take mx (drop s ws) # emitted ws (int mx) mn step (s + step)"
proof -
  have s: "s < length ws" using assms(2) emitted_done[of s ws] by blast
  have p: "mn \<le> int (length (take mx (drop s ws)))"
    using assms(2) emitted_short_window[of mx s ws mn step] by fastforce
  show ?thesis
    using s p emitted_step[OF s assms(1), of "int mx" mn] by (simp add: py_slice_nonneg)
qed

lemma window_overlap:
  assumes "ov < mx" "ov \<le> length (take mx (drop (s + (mx - ov)) ws))"
  shows "take ov (take mx (drop (s + (mx - ov)) ws)) = last_words ov (take mx (drop s ws))"
proof (cases "ov = 0")
  case True
  then show ?thesis by (simp add: last_words_def)
next
  case False
  with assms have len: "mx \<le> length ws - s" by simp
  then have lw: "length (take mx (drop s ws)) = mx" by simp
  have "last_words ov (take mx (drop s ws)) = drop (mx - ov) (take mx (drop s ws))"
    unfolding last_words_def lw ..
  also have "\<dots> = take (mx - (mx - ov)) (drop (mx - ov) (drop s ws))"
    by (simp only: drop_take)
  also have "\<dots> = take ov (drop (s + (mx - ov)) ws)"
    using assms(1) by (simp add: add.commute)
  finally show ?thesis using assms(1) by (simp add: min_def)
qed

lemma emitted_overlap:
  assumes "ov < mx"
  shows "successively (\<lambda>a b. ov \<le> length b \<longrightarrow> take ov b = last_words ov a)
           (emitted ws (int mx) mn (mx - ov) s)"
proof (induction "length ws - s" arbitrary: s rule: less_induct)
  case less
  let ?step = "mx - ov"
  have step: "0 < ?step" using assms by simp
  show ?case
  proof (cases "emitted ws (int mx) mn ?step s = []")
    case True
    then show ?thesis by simp
  next
    case False
    from emitted_head[OF step False]
    have s: "s < length ws"
      and e: "emitted ws (int mx) mn ?step s =
              take mx (drop s ws) # emitted ws (int mx) mn ?step (s + ?step)"
      by simp_all
    have "length ws - (s + ?step) < length ws - s" using s step by simp
    note IH = less.hyps[OF this]
    show ?thesis
    proof (cases "emitted ws (int mx) mn ?step (s + ?step) = []")
      case True
      then show ?thesis by (simp add: e)
    next
      case False
      from emitted_head[OF step False]
      have e': "emitted ws (int mx) mn ?step (s + ?step) =
          take mx (drop (s + ?step) ws) # emitted ws (int mx) mn ?step (s + ?step + ?step)"
        by simp
      have "hd (emitted ws (int mx) mn ?step (s + ?step)) = take mx (drop (s + ?step) ws)"
        by (subst e') simp
      then show ?thesis
        using IH False window_overlap[OF assms, of s ws]
        by (subst e) (auto simp: successively_Cons)
    qed
  qed
qed

lemma emitted_words:
  assumes "list_all is_word ws" "w \<in> set (emitted ws (int mx) mn step s)"
  shows "list_all is_word w \<and> mn \<le> int (length w) \<and> length w \<le> mx"
proof -
  from emitted_slices[OF assms(2)] obtain t where
    t: "mn \<le> int (length w)" "w = take mx (drop t ws)"
    by (auto simp: py_slice_nonneg)
  have "set w \<subseteq> set ws"
    unfolding t(2) by (meson set_take_subset set_drop_subset subset_trans)
  with assms(1) have "list_all is_word w" by (auto simp: list_all_iff)
  with t show ?thesis by simp
qed

lemma split_emitted:
  assumes "list_all is_word ws"
  shows "map py_split (map (py_join (u '' '')) (emitted ws (int mx) mn step s)) =
         emitted ws (int mx) mn step s"
proof -
  have "py_split (py_join (u '' '') w) = w" if "w \<in> set (emitted ws (int mx) mn step s)" for w
    using emitted_words[OF assms that] by (simp add: py_split_join)
  then show ?thesis by (simp add: map_idI)
qed

subsection \<open>Word counts and overlap of the emitted chunks\<close>

text \<open>
  C1 (as amended).  For every text and all parameters with \<open>0 \<le> overlap < max_words\<close>,
  \<open>chunk_text\<close> returns; every chunk it returns has between \<open>min_words\<close> and \<open>max_words\<close>
  whitespace-separated words; and for every two consecutive chunks of which the later one
  has at least \<open>overlap\<close> words, the first \<open>overlap\<close> words of the later chunk are the last
  \<open>overlap\<close> words of the earlier one.  (When \<open>overlap \<le> min_words\<close>, as with the defaults
  200, 30, 20, every emitted chunk has at least \<open>overlap\<close> words, by the first part.)
\<close>

theorem chunk_text_bounds_overlap:
  assumes "0 \<le> overlap" "overlap < max_words"
  shows "\<exists>chunks. chunk_text text max_words min_words overlap = Some chunks \<and>
     (\<forall>c \<in> set chunks. min_words \<le> int (length (py_split c)) \<and>
                        int (length (py_split c)) \<le> max_words) \<and>
     (\<forall>i. Suc i < length chunks \<longrightarrow>
          overlap \<le> int (length (py_split (chunks ! Suc i))) \<longrightarrow>
          take (nat overlap) (py_split (chunks ! Suc i)) =
          last_words (nat overlap) (py_split (chunks ! i)))"
proof -
  define mx where "mx = nat max_words"
  define ov where "ov = nat overlap"
  have mx: "max_words = int mx" and ov: "overlap = int ov" and lt: "ov < mx"
    using assms by (simp_all add: mx_def ov_def)
  define E where "E = emitted (py_split text) (int mx) min_words (mx - ov) 0"
  define chunks where "chunks = map (py_join (u '' '')) E"
  have step: "nat (max_words - overlap) = mx - ov" using assms by (simp add: mx ov)
  have ret: "chunk_text text max_words min_words overlap = Some chunks"
    using chunk_text_emitted[OF assms(2), of "text" min_words]
    by (simp add: chunks_def E_def step flip: mx)
  have sp: "map py_split chunks = E"
    unfolding chunks_def E_def by (rule split_emitted[OF py_split_words])
  have len: "length chunks = length E" by (simp add: chunks_def)
  have nth: "py_split (chunks ! i) = E ! i" if "i < length chunks" for i
    using that nth_map[of i chunks py_split] by (simp add: sp)
  have bounds: "min_words \<le> int (length (py_split c)) \<and> int (length (py_split c)) \<le> max_words"
    if "c \<in> set chunks" for c
  proof -
    from that have "py_split c \<in> set (map py_split chunks)" by simp
    then have "py_split c \<in> set (emitted (py_split text) (int mx) min_words (mx - ov) 0)"
      by (simp only: sp E_def)
    from emitted_words[OF py_split_words this] show ?thesis by (simp add: mx)
  qed
  have over: "take (nat overlap) (py_split (chunks ! Suc i)) =
              last_words (nat overlap) (py_split (chunks ! i))"
    if "Suc i < length chunks" "overlap \<le> int (length (py_split (chunks ! Suc i)))" for i
  proof -
    have "successively (\<lambda>a b. ov \<le> length b \<longrightarrow> take ov b = last_words ov a) E"
      unfolding E_def by (rule emitted_overlap[OF lt])
    from successively_nth[OF this, of i] that
    show ?thesis by (simp add: nth len ov)
  qed
  from ret bounds over show ?thesis by blast
qed

theorem chunk_text_bounds_overlap_witness:
  "\<exists>chunks. chunk_text (u ''a b c d e f g'') 4 2 1 = Some chunks \<and>
     (\<forall>c \<in> set chunks. 2 \<le> int (length (py_split c)) \<and> int (length (py_split c)) \<le> 4) \<and>
     (\<forall>i. Suc i < length chunks \<longrightarrow>
          1 \<le> int (length (py_split (chunks ! Suc i))) \<longrightarrow>
          take (nat 1) (py_split (chunks ! Suc i)) = last_words (nat 1) (py_split (chunks ! i)))"
  using chunk_text_bounds_overlap[of 1 4 "u ''a b c d e f g''" 2] by simp

text \<open>
  The claim as written fails where a chunk shorter than \<open>overlap\<close> is emitted: with
  \<open>max_words = 5\<close>, \<open>min_words = 1\<close>, \<open>overlap = 4\<close> and six words, the third and fourth
  chunks are consecutive, both emitted, and the first four words of \<open>d e f\<close> (all three of
  them) are not the last four words of \<open>c d e f\<close>.
\<close>

theorem chunk_text_overlap_counterexample:
  "chunk_text (u ''a b c d e f'') 5 1 4 =
     Some [u ''a b c d e'', u ''b c d e f'', u ''c d e f'', u ''d e f'', u ''e f'', u ''f''] \<and>
   take 4 (py_split (u ''d e f'')) \<noteq> last_words 4 (py_split (u ''c d e f''))"
proof -
  have ws: "py_split (u ''a b c d e f'') = map u [''a'', ''b'', ''c'', ''d'', ''e'', ''f'']"
    by (simp add: py_split_def u_def is_space_def)
  have "chunk_text (u ''a b c d e f'') 5 1 4 =
        Some (map (py_join (u '' ''))
          (emitted (py_split (u ''a b c d e f'')) 5 1 (nat (5 - 4)) 0))"
    by (rule chunk_text_emitted) simp
  also have "emitted (py_split (u ''a b c d e f'')) 5 1 (nat (5 - 4)) 0 =
     [map u [''a'', ''b'', ''c'', ''d'', ''e''], map u [''b'', ''c'', ''d'', ''e'', ''f''],
      map u [''c'', ''d'', ''e'', ''f''], map u [''d'', ''e'', ''f''], map u [''e'', ''f''],
      map u [''f'']]"
    unfolding ws by (simp add: emitted_step emitted_done py_slice_def py_slice_index_def)
  finally have a: "chunk_text (u ''a b c d e f'') 5 1 4 =
     Some [u ''a b c d e'', u ''b c d e f'', u ''c d e f'', u ''d e f'', u ''e f'', u ''f'']"
    by (simp add: u_def)
  have b: "take 4 (py_split (u ''d e f'')) \<noteq> last_words 4 (py_split (u ''c d e f''))"
    by (simp add: py_split_def u_def is_space_def last_words_def)
  from a b show ?thesis ..
qed

subsection \<open>Parameters that do not advance the window\<close>

text \<open>
  C2 (as amended).  \<open>chunk_text\<close> checks none of its parameters and raises no error for any
  of them.  Whenever \<open>overlap < max_words\<close> the window advances by at least one word and
  \<open>chunk_text\<close> returns, for every text; and for every parameter triple, valid or not, it
  returns the empty list on a text without words.
\<close>

theorem chunk_text_returns:
  "(overlap < max_words \<longrightarrow> (\<exists>chunks. chunk_text text max_words min_words overlap = Some chunks))
   \<and> (py_split text = [] \<longrightarrow> chunk_text text max_words min_words overlap = Some [])"
  using chunk_text_emitted[of overlap max_words "text" min_words]
        chunk_text_no_words[of "text" max_words min_words overlap]
  by simp

theorem chunk_text_returns_witness:
  "(\<exists>chunks. chunk_text (u ''a b c'') 2 1 1 = Some chunks) \<and>
   chunk_text (u ''  '') 1 1 1 = Some []"
proof -
  have a: "(1::int) < 2" by simp
  have b: "py_split (u ''  '') = []" by (simp add: py_split_def u_def is_space_def)
  from chunk_text_returns[of 1 2 "u ''a b c''" 1] a
  have "\<exists>chunks. chunk_text (u ''a b c'') 2 1 1 = Some chunks" by blast
  moreover from chunk_text_returns[of 1 1 "u ''  ''" 1] b
  have "chunk_text (u ''  '') 1 1 1 = Some []" by blast
  ultimately show ?thesis ..
qed

text \<open>
  With \<open>overlap = max_words = 1\<close> nothing fails fast: on the empty text \<open>chunk_text\<close>
  returns the empty list as for any other parameters, and on the text \<open>a\<close> it does not
  return at all.
\<close>

theorem chunk_text_no_config_error_counterexample:
  "chunk_text [] 1 2 1 = Some [] \<and> chunk_text (u ''a'') 1 2 1 = None"
proof -
  have a: "chunk_text [] 1 2 1 = Some []"
    by (rule chunk_text_no_words) (simp add: py_split_def)
  have "py_split (u ''a'') \<noteq> []" by (simp add: py_split_def u_def is_space_def)
  then have b: "chunk_text (u ''a'') 1 2 1 = None"
    by (intro chunk_text_diverges) simp_all
  from a b show ?thesis ..
qed

subsection \<open>Short inputs\<close>

text \<open>
  C4 (as amended).  For all parameters with \<open>overlap < max_words\<close>: a text without words
  (the empty text among them) yields no chunk; a text with fewer than \<open>min_words\<close> words
  yields no chunk; and a text with \<open>w \<ge> 1\<close> words, \<open>min_words \<le> w \<le> max_words\<close>, yields
  first the chunk of all its \<open>w\<close> words, and exactly that one chunk whenever
  \<open>w < min_words + (max_words - overlap)\<close>, which holds for every such \<open>w\<close> when
  \<open>overlap < min_words\<close>.
\<close>

theorem chunk_text_short_inputs:
  assumes "overlap < max_words"
  shows "(py_split text = [] \<longrightarrow> chunk_text text max_words min_words overlap = Some []) \<and>
     (int (length (py_split text)) < min_words \<longrightarrow>
        chunk_text text max_words min_words overlap = Some []) \<and>
     (py_split text \<noteq> [] \<and> min_words \<le> int (length (py_split text)) \<and>
      int (length (py_split text)) \<le> max_words \<longrightarrow>
        (\<exists>rest. chunk_text text max_words min_words overlap =
                  Some (py_join (u '' '') (py_split text) # rest)) \<and>
        py_split (py_join (u '' '') (py_split text)) = py_split text \<and>
        (int (length (py_split text)) < min_words + (max_words - overlap) \<longrightarrow>
           chunk_text text max_words min_words overlap =
             Some [py_join (u '' '') (py_split text)]))"
proof (intro conjI impI)
  assume "py_split text = []"
  then show "chunk_text text max_words min_words overlap = Some []"
    by (rule chunk_text_no_words)
next
  assume "int (length (py_split text)) < min_words"
  then show "chunk_text text max_words min_words overlap = Some []"
    by (simp add: chunk_text_emitted[OF assms] emitted_short_input)
next
  let ?ws = "py_split text"
  let ?step = "nat (max_words - overlap)"
  assume h: "?ws \<noteq> [] \<and> min_words \<le> int (length ?ws) \<and> int (length ?ws) \<le> max_words"
  define mx where "mx = nat max_words"
  have mx: "max_words = int mx" "length ?ws \<le> mx" using h by (simp_all add: mx_def le_nat_iff)
  have step: "0 < ?step" using assms by simp
  have s0: "0 < length ?ws" using h by simp
  have first: "emitted ?ws max_words min_words ?step 0 =
               ?ws # emitted ?ws max_words min_words ?step ?step"
    using emitted_step[OF s0 step, of max_words min_words] h mx(2)
    by (simp add: mx(1) py_slice_nonneg[of ?ws 0 mx, simplified])
  show "\<exists>rest. chunk_text text max_words min_words overlap =
                  Some (py_join (u '' '') ?ws # rest)"
    by (simp add: chunk_text_emitted[OF assms] first)
  show "py_split (py_join (u '' '') ?ws) = ?ws"
    by (rule py_split_join[OF py_split_words])
  assume w: "int (length ?ws) < min_words + (max_words - overlap)"
  have "emitted ?ws (int mx) min_words ?step ?step = []"
  proof (cases "?step < length ?ws")
    case False
    then show ?thesis by (rule emitted_done)
  next
    case True
    show ?thesis
    proof (rule emitted_short_window)
      have "int (length (drop ?step ?ws)) < min_words" using w assms True by simp
      moreover have "length (take mx (drop ?step ?ws)) \<le> length (drop ?step ?ws)" by simp
      ultimately show "int (length (take mx (drop ?step ?ws))) < min_words" by linarith
    qed
  qed
  then show "chunk_text text max_words min_words overlap = Some [py_join (u '' '') ?ws]"
    by (simp add: chunk_text_emitted[OF assms] first mx(1)[symmetric])
qed

theorem chunk_text_short_inputs_witness:
  "chunk_text [] 5 2 1 = Some [] \<and> chunk_text (u ''a'') 5 2 1 = Some [] \<and>
   chunk_text (u ''a b c'') 5 2 1 = Some [u ''a b c'']"
proof -
  have lt: "(1::int) < 5" by simp
  have e: "py_split [] = []" by (simp add: py_split_def)
  have a: "py_split (u ''a'') = [u ''a'']" by (simp add: py_split_def u_def is_space_def)
  have b: "py_split (u ''a b c'') = [u ''a'', u ''b'', u ''c'']"
    by (simp add: py_split_def u_def is_space_def)
  from chunk_text_short_inputs[OF lt, of "[]" 2] e
  have 1: "chunk_text [] 5 2 1 = Some []" by blast
  from chunk_text_short_inputs[OF lt, of "u ''a''" 2]
  have 2: "chunk_text (u ''a'') 5 2 1 = Some []" by (simp add: a)
  have j: "u ''a'' @ u '' '' @ u ''b'' @ u '' '' @ u ''c'' = u ''a b c''" by (simp add: u_def)
  from chunk_text_short_inputs[OF lt, of "u ''a b c''" 2]
  have 3: "chunk_text (u ''a b c'') 5 2 1 = Some [u ''a b c'']" by (simp add: b j)
  from 1 2 3 show ?thesis by blast
qed

text \<open>
  The claim as written fails where \<open>overlap \<ge> min_words\<close>: with \<open>max_words = 5\<close>,
  \<open>min_words = 1\<close> and \<open>overlap = 4\<close>, a text of three words, between \<open>min_words\<close> and
  \<open>max_words\<close>, yields three chunks.
\<close>

theorem chunk_text_one_chunk_counterexample:
  "length (py_split (u ''a b c'')) = 3 \<and>
   chunk_text (u ''a b c'') 5 1 4 = Some [u ''a b c'', u ''b c'', u ''c'']"
proof -
  have ws: "py_split (u ''a b c'') = map u [''a'', ''b'', ''c'']"
    by (simp add: py_split_def u_def is_space_def)
  have "chunk_text (u ''a b c'') 5 1 4 =
        Some (map (py_join (u '' '')) (emitted (py_split (u ''a b c'')) 5 1 (nat (5 - 4)) 0))"
    by (rule chunk_text_emitted) simp
  also have "emitted (py_split (u ''a b c'')) 5 1 (nat (5 - 4)) 0 =
     [map u [''a'', ''b'', ''c''], map u [''b'', ''c''], map u [''c'']]"
    unfolding ws by (simp add: emitted_step emitted_done py_slice_def py_slice_index_def)
  finally have "chunk_text (u ''a b c'') 5 1 4 = Some [u ''a b c'', u ''b c'', u ''c'']"
    by (simp add: u_def)
  then show ?thesis by (simp add: ws)
qed

subsection \<open>The chunks in textual order\<close>

lemma emitted_nth:
  assumes "0 < step" "i < length (emitted ws (int mx) mn step s)"
  shows "emitted ws (int mx) mn step s ! i = take mx (drop (s + i * step) ws)"
  using assms(2)
proof (induction i arbitrary: s)
  case 0
  then have "emitted ws (int mx) mn step s \<noteq> []" by auto
  from emitted_head[OF assms(1) this] show ?case by simp
next
  case (Suc i)
  then have "emitted ws (int mx) mn step s \<noteq> []" by auto
  from emitted_head[OF assms(1) this]
  have e: "emitted ws (int mx) mn step s =
           take mx (drop s ws) # emitted ws (int mx) mn step (s + step)" by simp
  with Suc.prems have "i < length (emitted ws (int mx) mn step (s + step))" by simp
  from Suc.IH[OF this] show ?case by (subst e) (simp add: algebra_simps)
qed

text \<open>
  X2.  For all parameters with \<open>0 \<le> overlap < max_words\<close>, the \<open>i\<close>-th chunk returned,
  counted from 0, is the window of up to \<open>max_words\<close> words that starts at word
  \<open>i * (max_words - overlap)\<close>, its words joined by single spaces: the chunks come in the
  order of the text, and only windows at the end are dropped.
\<close>

theorem chunk_text_windows:
  assumes "0 \<le> overlap" "overlap < max_words"
  shows "\<exists>chunks. chunk_text text max_words min_words overlap = Some chunks \<and>
     (\<forall>i < length chunks.
        chunks ! i = py_join (u '' '')
          (take (nat max_words) (drop (i * nat (max_words - overlap)) (py_split text))))"
proof -
  define mx where "mx = nat max_words"
  define step where "step = nat (max_words - overlap)"
  have mx: "max_words = int mx" and step: "0 < step"
    using assms by (simp_all add: mx_def step_def)
  define E where "E = emitted (py_split text) (int mx) min_words step 0"
  have ret: "chunk_text text max_words min_words overlap = Some (map (py_join (u '' '')) E)"
    using chunk_text_emitted[OF assms(2), of "text" min_words]
    by (simp add: E_def step_def flip: mx)
  have "map (py_join (u '' '')) E ! i =
        py_join (u '' '') (take mx (drop (i * step) (py_split text)))"
    if "i < length (map (py_join (u '' '')) E)" for i
  proof -
    from that have i: "i < length E" by simp
    from emitted_nth[OF step i[unfolded E_def]] i show ?thesis by (simp add: E_def)
  qed
  with ret show ?thesis unfolding mx_def step_def by blast
qed

theorem chunk_text_windows_witness:
  "\<exists>chunks. chunk_text (u ''a b c d e'') 3 1 1 = Some chunks \<and>
     (\<forall>i < length chunks.
        chunks ! i = py_join (u '' '')
          (take (nat 3) (drop (i * nat (3 - 1)) (py_split (u ''a b c d e'')))))"
  using chunk_text_windows[of 1 3 "u ''a b c d e''" 1] by simp

section \<open>Properties of the auditor\<close>

subsection \<open>Counting\<close>

lemma counter_add_keys_old:
  "x \<in> fst ` set c \<Longrightarrow> map fst (counter_add x c) = map fst c"
  by (induction c) force+

lemma counter_add_keys_new:
  "x \<notin> fst ` set c \<Longrightarrow> map fst (counter_add x c) = map fst c @ [x]"
  by (induction c) auto

lemma counter_add_distinct:
  "distinct (map fst c) \<Longrightarrow> distinct (map fst (counter_add x c))"
  by (cases "x \<in> fst ` set c") (simp_all add: counter_add_keys_old counter_add_keys_new)

lemma counter_add_map_of:
  "map_of (counter_add x c) k =
     (if k = x then Some (case map_of c x of None \<Rightarrow> 1 | Some n \<Rightarrow> n + 1) else map_of c k)"
  by (induction c) auto

lemma Counter_snoc: "Counter (xs @ [x]) = counter_add x (Counter xs)"
  by (simp add: Counter_def)

lemma Counter_distinct: "distinct (map fst (Counter xs))"
proof (induction xs rule: rev_induct)
  case Nil
  show ?case by (simp add: Counter_def)
next
  case (snoc x xs)
  then show ?case by (simp add: Counter_snoc counter_add_distinct)
qed

lemma Counter_map_of:
  "map_of (Counter xs) k = (if k \<in> set xs then Some (count_list xs k) else None)"
proof (induction xs rule: rev_induct)
  case Nil
  show ?case by (simp add: Counter_def)
next
  case (snoc x xs)
  then show ?case by (auto simp: Counter_snoc counter_add_map_of)
qed

lemma Counter_set:
  "set (Counter xs) = {(k, n). k \<in> set xs \<and> n = count_list xs k}"
proof -
  have "(k, n) \<in> set (Counter xs) \<longleftrightarrow> k \<in> set xs \<and> n = count_list xs k" for k n
    using map_of_eq_Some_iff[OF Counter_distinct, of xs k n]
    by (auto simp: Counter_map_of split: if_splits)
  then show ?thesis by auto
qed

subsection \<open>The statistics pass\<close>

text \<open>
  C3.  Run over zero chunks, \<open>basic_stats\<close> ends with the \<open>ZeroDivisionError\<close> of the
  division of the word total by the chunk count: the count is not tested before the
  division, and the exception is not caught.  The duplicate pass run over the same zero
  chunks returns normally and finds no group.
\<close>

theorem basic_stats_empty_raises:
  "basic_stats [] = Inl ZeroDivisionError \<and> detect_duplicates [] top_n = ([], [])"
  by (simp add: basic_stats_def py_truediv_def detect_duplicates_def Counter_def py_slice_def
      Let_def)

subsection \<open>Duplicate detection\<close>

lemma detect_duplicates_fst:
  "fst (detect_duplicates chunks top_n) =
   filter (\<lambda>(text, count). 1 < count) (Counter (map snd chunks))"
proof -
  have sn: "(\<lambda>(_, text). text) = (snd :: pystr \<times> pystr \<Rightarrow> pystr)" by auto
  show ?thesis by (simp add: detect_duplicates_def Let_def sn)
qed

text \<open>
  C9.  On the chunk set \<open>[("a","x"),("b","x"),("c","y")]\<close> the list of duplicates is the one
  group \<open>("x", 2)\<close>.  For every chunk set, the list holds each text that occurs more than
  once exactly once, with its number of occurrences, and nothing else, whatever \<open>top_n\<close> is;
  only the printed preview is cut to the first \<open>top_n\<close> groups.  On the three chunks the
  statistics are count 3 and minimum, maximum and mean 1, the word count of each text.
\<close>

theorem detect_duplicates_groups:
  "fst (detect_duplicates [(u ''a'', u ''x''), (u ''b'', u ''x''), (u ''c'', u ''y'')] 5) =
     [(u ''x'', 2)] \<and>
   distinct (map fst (fst (detect_duplicates chunks top_n))) \<and>
   set (fst (detect_duplicates chunks top_n)) =
     {(t, n). t \<in> snd ` set chunks \<and> n = count_list (map snd chunks) t \<and> 1 < n} \<and>
   snd (detect_duplicates chunks top_n) =
     map (\<lambda>(text, count). (count, snippet text))
       (py_slice (fst (detect_duplicates chunks top_n)) 0 top_n) \<and>
   basic_stats [(u ''a'', u ''x''), (u ''b'', u ''x''), (u ''c'', u ''y'')] =
     Inr \<lparr>stat_total = 3, stat_avg = 1, stat_min = 1, stat_max = 1\<rparr>"
proof (intro conjI)
  show "fst (detect_duplicates [(u ''a'', u ''x''), (u ''b'', u ''x''), (u ''c'', u ''y'')] 5) =
     [(u ''x'', 2)]"
    by (simp add: detect_duplicates_def Counter_def u_def Let_def)
next
  have "distinct (map fst (Counter (map snd chunks)))" by (rule Counter_distinct)
  then show "distinct (map fst (fst (detect_duplicates chunks top_n)))"
    unfolding detect_duplicates_fst by (rule distinct_map_filter)
  show "set (fst (detect_duplicates chunks top_n)) =
     {(t, n). t \<in> snd ` set chunks \<and> n = count_list (map snd chunks) t \<and> 1 < n}"
    unfolding detect_duplicates_fst by (auto simp: Counter_set)
  show "snd (detect_duplicates chunks top_n) =
     map (\<lambda>(text, count). (count, snippet text))
       (py_slice (fst (detect_duplicates chunks top_n)) 0 top_n)"
    by (simp add: detect_duplicates_def Let_def)
next
  have a: "py_split (u ''x'') = [u ''x'']" "py_split (u ''y'') = [u ''y'']"
    by (simp_all add: py_split_def u_def is_space_def)
  show "basic_stats [(u ''a'', u ''x''), (u ''b'', u ''x''), (u ''c'', u ''y'')] =
     Inr \<lparr>stat_total = 3, stat_avg = 1, stat_min = 1, stat_max = 1\<rparr>"
    by (simp add: basic_stats_def a py_truediv_def double_quot_def quot_exponent_def
        round_half_even_def pow2_def bit_length.simps py_min_def py_max_def)
qed

section \<open>Properties of the boilerplate stripper\<close>

subsection \<open>Evaluation and basic facts\<close>

lemmas clean_eval =
  re_search_def start_pattern_def end_pattern_def marker_pattern_def ci_def u_def
  is_space_def ci_variants_def ascii_lower_def normalize_newlines_def

text \<open>
  The value of \<open>story_text\<close> after the \<open>if\<close>/\<open>else\<close> and the value \<open>clean_gutenberg\<close>
  returns, without the lines printed on the way.
\<close>

lemma story_text_eq:
  "story_text text =
     (case (re_search start_pattern text, re_search end_pattern text) of
        (Some start_match, Some end_match) \<Rightarrow>
          (let start_pos = snd start_match; end_pos = fst end_match
           in Inr (py_strip (py_slice text (int start_pos) (int end_pos))))
      | _ \<Rightarrow>
          (let n = length text
           in case int_tenth n of
                Inl e \<Rightarrow> Inl e
              | Inr lo \<Rightarrow>
                  (case int_nine_tenths n of
                     Inl e \<Rightarrow> Inl e
                   | Inr hi \<Rightarrow> Inr (py_slice text lo hi))))"
  by (simp add: story_text_def story_text_run_def Let_def split: option.splits)

lemma clean_gutenberg_eq:
  "clean_gutenberg text =
     (case story_text (normalize_newlines text) of
        Inl e \<Rightarrow> Inl e
      | Inr story \<Rightarrow> Inr (post_process story))"
  by (simp add: clean_gutenberg_def clean_gutenberg_run_def story_text_def
      split: prod.splits sum.splits)

lemma py_strip_Nil: "py_strip [] = []"
  by (simp add: py_strip_def)

lemma post_process_Nil: "post_process [] = []"
  by (simp add: post_process_def py_strip_def)

lemma py_replace_length:
  "length new \<le> length old \<Longrightarrow> length (py_replace old new s) \<le> length s"
proof (induction old new s rule: py_replace.induct)
  case (1 old new)
  show ?case by simp
next
  case (2 old new c cs)
  show ?case
  proof (cases "old \<noteq> [] \<and> prefix old (c # cs)")
    case True
    then have "length old \<le> Suc (length cs)" by (auto dest: prefix_length_le)
    moreover have "length (py_replace old new (drop (length old - 1) cs)) \<le>
                   length cs - (length old - 1)"
      using 2 True by fastforce
    ultimately show ?thesis using True "2.prems" by simp
  next
    case False
    then show ?thesis using 2 by auto
  qed
qed

lemma normalize_newlines_length: "length (normalize_newlines text) \<le> length text"
proof -
  have "length (normalize_newlines text) \<le>
        length (py_replace (u [CHR 0x0D, CHR 0x0A]) (u [CHR 0x0A]) text)"
    unfolding normalize_newlines_def by (rule py_replace_length) (simp add: u_def)
  also have "\<dots> \<le> length text"
    by (rule py_replace_length) (simp add: u_def)
  finally show ?thesis .
qed

lemma py_int_mul_returns:
  "n < 2 ^ 63 \<Longrightarrow> py_int_mul m k n = Inr (int (round53 (m * round53 n) div 2 ^ k))"
proof -
  assume "n < 2 ^ 63"
  moreover have "(2::nat) ^ 63 \<le> 2 ^ 1024 - 2 ^ 970" by simp
  ultimately have "\<not> 2 ^ 1024 - 2 ^ 970 \<le> n" by linarith
  then show ?thesis by (simp add: py_int_mul_def)
qed

lemma story_text_markers:
  assumes "re_search start_pattern t = Some (s1, e1)" "re_search end_pattern t = Some (s2, e2)"
  shows "story_text t = Inr (py_strip (take (s2 - e1) (drop e1 t)))"
  using assms by (simp add: story_text_eq py_slice_nat)

lemma story_text_fallback:
  assumes "re_search start_pattern t = None \<or> re_search end_pattern t = None"
  shows "story_text t =
     (case int_tenth (length t) of
        Inl e \<Rightarrow> Inl e
      | Inr lo \<Rightarrow> (case int_nine_tenths (length t) of
                    Inl e \<Rightarrow> Inl e
                  | Inr hi \<Rightarrow> Inr (py_slice t lo hi)))"
  using assms by (auto simp: story_text_eq Let_def split: option.splits)

subsection \<open>An end marker before the start marker\<close>

text \<open>
  C10.  When both patterns match and the first match of the end pattern begins at or
  before the end of the first match of the start pattern, nothing is raised: the span
  between them is the empty string, and \<open>clean_gutenberg\<close> returns the empty string.
\<close>

theorem clean_gutenberg_end_first:
  assumes "re_search start_pattern (normalize_newlines text) = Some (s1, e1)"
    and "re_search end_pattern (normalize_newlines text) = Some (s2, e2)"
    and "s2 \<le> e1"
  shows "story_text (normalize_newlines text) = Inr [] \<and> clean_gutenberg text = Inr []"
proof -
  have "story_text (normalize_newlines text) = Inr []"
    using story_text_markers[OF assms(1,2)] assms(3) by (simp add: py_strip_Nil)
  then show ?thesis by (simp add: clean_gutenberg_eq post_process_Nil)
qed

theorem clean_gutenberg_end_first_witness:
  "clean_gutenberg (u ''*** END OF THE PROJECT GUTENBERG EBOOK a *** *** START OF THE PROJECT GUTENBERG EBOOK b ***'') = Inr []"
proof -
  let ?t = "u ''*** END OF THE PROJECT GUTENBERG EBOOK a *** *** START OF THE PROJECT GUTENBERG EBOOK b ***''"
  have a: "re_search start_pattern (normalize_newlines ?t) = Some (45, 91)"
    by (simp add: clean_eval)
  have b: "re_search end_pattern (normalize_newlines ?t) = Some (0, 44)"
    by (simp add: clean_eval)
  from clean_gutenberg_end_first[OF a b] show ?thesis by simp
qed

lemma story_text_returns:
  assumes "length text < 2 ^ 63"
  shows "\<exists>s. story_text (normalize_newlines text) = Inr s"
proof -
  let ?t = "normalize_newlines text"
  have n: "length ?t < 2 ^ 63"
    using normalize_newlines_length[of "text"] assms by linarith
  show ?thesis
  proof (cases "re_search start_pattern ?t = None \<or> re_search end_pattern ?t = None")
    case True
    show ?thesis
      unfolding story_text_fallback[OF True] int_tenth_def int_nine_tenths_def
      by (simp add: py_int_mul_returns[OF n])
  next
    case False
    then obtain s1 e1 s2 e2 where
      "re_search start_pattern ?t = Some (s1, e1)" "re_search end_pattern ?t = Some (s2, e2)"
      by auto
    from story_text_markers[OF this] show ?thesis by blast
  qed
qed


subsection \<open>Totality and output\<close>

text \<open>
  C7 (as amended).  \<open>clean_gutenberg\<close> raises nothing and returns a string for every input
  string, of any content; the string is empty for the empty input.  (A Python string has
  fewer than \<open>2 ^ 63\<close> characters; the one statement that can raise, the conversion of the
  length to a double, would need more than \<open>2 ^ 1023\<close>.)  The call is not free of effects:
  it prints exactly one line, the report of the length of the extracted span (the value
  of \<open>story_text\<close> before the clean-up) when both patterns match, and the fallback warning
  otherwise.  The line and the returned string are functions of the argument alone.
\<close>

theorem clean_gutenberg_total_prints:
  assumes "length text < 2 ^ 63"
  shows "(\<exists>story. story_text (normalize_newlines text) = Inr story \<and>
            clean_gutenberg_run text =
              ([if re_search start_pattern (normalize_newlines text) \<noteq> None \<and>
                   re_search end_pattern (normalize_newlines text) \<noteq> None
                then found_report (length story) else fallback_warning],
               Inr (post_process story)) \<and>
            clean_gutenberg text = Inr (post_process story)) \<and>
         clean_gutenberg [] = Inr []"
proof
  let ?t = "normalize_newlines text"
  from story_text_returns[OF assms] obtain story where s: "story_text ?t = Inr story" ..
  have "story_text_run ?t =
          ([if re_search start_pattern ?t \<noteq> None \<and> re_search end_pattern ?t \<noteq> None
            then found_report (length story) else fallback_warning], Inr story)"
    using s by (auto simp: story_text_def story_text_run_def Let_def split: option.splits)
  then have "clean_gutenberg_run text =
          ([if re_search start_pattern ?t \<noteq> None \<and> re_search end_pattern ?t \<noteq> None
            then found_report (length story) else fallback_warning],
           Inr (post_process story))"
    by (simp add: clean_gutenberg_run_def)
  moreover from s have "clean_gutenberg text = Inr (post_process story)"
    by (simp add: clean_gutenberg_eq)
  ultimately show "\<exists>story. story_text ?t = Inr story \<and>
            clean_gutenberg_run text =
              ([if re_search start_pattern ?t \<noteq> None \<and> re_search end_pattern ?t \<noteq> None
                then found_report (length story) else fallback_warning],
               Inr (post_process story)) \<and>
            clean_gutenberg text = Inr (post_process story)"
    using s by blast
next
  have "normalize_newlines [] = []" by (simp add: normalize_newlines_def)
  moreover have "story_text [] = Inr []"
    by (simp add: story_text_eq clean_eval int_tenth_def int_nine_tenths_def py_int_mul_def
        round53_def bit_length.simps py_slice_def)
  ultimately show "clean_gutenberg [] = Inr []"
    by (simp add: clean_gutenberg_eq post_process_Nil)
qed

theorem clean_gutenberg_total_prints_witness:
  "clean_gutenberg_run (u ''*** START OF THE PROJECT GUTENBERG EBOOK X *** a_b  c *** END OF THE PROJECT GUTENBERG EBOOK X ***'') =
     ([[9989] @ u '' Found markers, extracted 6 characters''], Inr (u ''ab c'')) \<and>
   clean_gutenberg (u ''*** START OF THE PROJECT GUTENBERG EBOOK X *** a_b  c *** END OF THE PROJECT GUTENBERG EBOOK X ***'') =
     Inr (u ''ab c'')"
proof -
  let ?text = "u ''*** START OF THE PROJECT GUTENBERG EBOOK X *** a_b  c *** END OF THE PROJECT GUTENBERG EBOOK X ***''"
  have l: "length ?text < 2 ^ 63" by (simp add: u_def)
  have a: "re_search start_pattern (normalize_newlines ?text) = Some (0, 46)"
    by (simp add: clean_eval)
  have b: "re_search end_pattern (normalize_newlines ?text) = Some (54, 98)"
    by (simp add: clean_eval)
  have st: "story_text (normalize_newlines ?text) = Inr (u ''a_b  c'')"
    unfolding story_text_markers[OF a b]
    by (simp add: clean_eval py_strip_def py_slice_def py_slice_index_def)
  have pp: "post_process (u ''a_b  c'') = u ''ab c''"
    by (simp add: post_process_def py_strip_def ci_def u_def is_space_def ci_variants_def
        ascii_lower_def)
  have r: "found_report 6 = [9989] @ u '' Found markers, extracted 6 characters''"
    by (simp add: found_report_def py_str.simps u_def)
  have len: "length (u ''a_b  c'') = 6" by (simp add: u_def)
  from clean_gutenberg_total_prints[OF l] st
  have "clean_gutenberg_run ?text =
          ([found_report (length (u ''a_b  c''))], Inr (post_process (u ''a_b  c''))) \<and>
        clean_gutenberg ?text = Inr (post_process (u ''a_b  c''))"
    by (simp add: a b)
  then show ?thesis by (simp add: pp len r)
qed

text \<open>
  The claim as written calls the function pure.  The call on the empty string returns the
  empty string and prints the fallback warning.
\<close>

theorem clean_gutenberg_pure_counterexample:
  "clean_gutenberg_run [] = ([fallback_warning], Inr []) \<and> fst (clean_gutenberg_run []) \<noteq> []"
  by (simp add: clean_gutenberg_run_def story_text_run_def clean_eval int_tenth_def
      int_nine_tenths_def py_int_mul_def round53_def bit_length.simps py_slice_def
      post_process_Nil)

subsection \<open>The rounded products\<close>

lemma bit_length_le: "n < 2 ^ k \<Longrightarrow> bit_length n \<le> k"
proof (induction k arbitrary: n)
  case 0
  then show ?case by (simp add: bit_length.simps)
next
  case (Suc k)
  have "n div 2 < 2 ^ k" using Suc.prems by simp
  from Suc.IH[OF this] show ?case by (subst bit_length.simps) simp
qed

lemma round53_div:
  assumes "bit_length p \<le> 53 + j" "j \<le> k" "a * 2 ^ k \<le> p" "p + 2 ^ j < (a + 1) * 2 ^ k"
  shows "round53 p div 2 ^ k = a"
proof -
  have "a * 2 ^ k \<le> round53 p \<and> round53 p < (a + 1) * 2 ^ k"
  proof (cases "bit_length p \<le> 53")
    case True
    then have "round53 p = p" by (simp add: round53_def)
    with assms show ?thesis by simp
  next
    case False
    define sh where "sh = bit_length p - 53"
    define q where "q = p div 2 ^ sh"
    have sh: "sh \<le> j" "sh \<le> k" using assms(1,2) by (simp_all add: sh_def)
    have r: "round53 p = q * 2 ^ sh \<or> round53 p = (q + 1) * 2 ^ sh"
      using False by (simp add: round53_def Let_def sh_def q_def)
    have k: "(2::nat) ^ k = 2 ^ (k - sh) * 2 ^ sh"
      using sh(2) by (simp add: power_add[symmetric])
    have "a * 2 ^ (k - sh) * 2 ^ sh \<le> p" using assms(3) by (simp add: k mult.assoc)
    then have "a * 2 ^ (k - sh) \<le> q"
      unfolding q_def by (simp add: less_eq_div_iff_mult_less_eq)
    then have "a * 2 ^ (k - sh) * 2 ^ sh \<le> q * 2 ^ sh" by simp
    then have l: "a * 2 ^ k \<le> q * 2 ^ sh" by (simp add: k mult.assoc)
    have qp: "q * 2 ^ sh \<le> p" unfolding q_def by simp
    have e: "(2::nat) ^ sh \<le> 2 ^ j" using sh(1) by simp
    have "(q + 1) * 2 ^ sh = q * 2 ^ sh + 2 ^ sh" by (simp add: algebra_simps)
    also have "\<dots> \<le> p + 2 ^ j" using qp e by (rule add_mono)
    also have "\<dots> < (a + 1) * 2 ^ k" by (rule assms(4))
    finally have h: "(q + 1) * 2 ^ sh < (a + 1) * 2 ^ k" .
    have m: "q * 2 ^ sh \<le> (q + 1) * 2 ^ sh" by simp
    from r show ?thesis
    proof
      assume "round53 p = q * 2 ^ sh"
      with l h m show ?thesis by linarith
    next
      assume "round53 p = (q + 1) * 2 ^ sh"
      with l h m show ?thesis by linarith
    qed
  qed
  then show ?thesis
    by (intro div_nat_eqI) (simp_all add: mult.commute)
qed

lemma round53_small: "n < 2 ^ 53 \<Longrightarrow> round53 n = n"
  using bit_length_le[of n 53] by (simp add: round53_def)

lemma int_tenth_div:
  assumes "n < 2 ^ 45"
  shows "int_tenth n = Inr (int (n div 10))"
proof -
  let ?m = "3602879701896397 :: nat"
  have n53: "n < 2 ^ 53" and n63: "n < 2 ^ 63" using assms by simp_all
  have "?m * n < 2 ^ 52 * 2 ^ 45" using assms by (intro mult_strict_mono) simp_all
  then have "?m * n < 2 ^ 97" by simp
  then have bl: "bit_length (?m * n) \<le> 53 + 44" using bit_length_le[of "?m * n" 97] by simp
  define a where "a = n div 10"
  define r where "r = n mod 10"
  have n: "n = 10 * a + r" "r < 10" by (simp_all add: a_def r_def)
  have "round53 (?m * n) div 2 ^ 55 = a"
  proof (rule round53_div[OF bl])
    show "(44::nat) \<le> 55" by simp
    show "a * 2 ^ 55 \<le> ?m * n" using n by simp
    show "?m * n + 2 ^ 44 < (a + 1) * 2 ^ 55" using n assms by simp
  qed
  then show ?thesis
    by (simp add: int_tenth_def py_int_mul_returns[OF n63] round53_small[OF n53] a_def)
qed

lemma int_nine_tenths_div:
  assumes "n < 2 ^ 45"
  shows "int_nine_tenths n = Inr (int (9 * n div 10))"
proof -
  let ?m = "8106479329266893 :: nat"
  have n53: "n < 2 ^ 53" and n63: "n < 2 ^ 63" using assms by simp_all
  have "?m * n < 2 ^ 53 * 2 ^ 45" using assms by (intro mult_strict_mono) simp_all
  then have "?m * n < 2 ^ 98" by simp
  then have bl: "bit_length (?m * n) \<le> 53 + 45" using bit_length_le[of "?m * n" 98] by simp
  define a where "a = 9 * n div 10"
  define r where "r = 9 * n mod 10"
  have n: "9 * n = 10 * a + r" "r < 10" by (simp_all add: a_def r_def)
  have "round53 (?m * n) div 2 ^ 53 = a"
  proof (rule round53_div[OF bl])
    show "(45::nat) \<le> 53" by simp
    show "a * 2 ^ 53 \<le> ?m * n" using n by simp
    show "?m * n + 2 ^ 45 < (a + 1) * 2 ^ 53" using n assms by simp
  qed
  then show ?thesis
    by (simp add: int_nine_tenths_def py_int_mul_returns[OF n63] round53_small[OF n53] a_def)
qed

subsection \<open>The fallback slice\<close>

lemma py_replace_absent:
  "old \<noteq> [] \<Longrightarrow> hd old \<notin> set s \<Longrightarrow> py_replace old new s = s"
proof (induction s)
  case Nil
  show ?case by simp
next
  case (Cons c cs)
  then have "\<not> prefix old (c # cs)"
    by (cases old) (auto simp: prefix_Cons)
  with Cons show ?case by simp
qed

lemma normalize_newlines_absent: "13 \<notin> set text \<Longrightarrow> normalize_newlines text = text"
  by (simp add: normalize_newlines_def u_def py_replace_absent)

lemma rmatch_marker_no_star:
  "x \<noteq> 42 \<Longrightarrow> rmatch (marker_pattern kw) (x # xs) = None"
  "rmatch (marker_pattern kw) [] = None"
  by (simp_all add: marker_pattern_def ci_def ci_variants_def ascii_lower_def)

lemma re_search_from_no_star:
  "42 \<notin> set t \<Longrightarrow> re_search_from (marker_pattern kw) pos t = None"
  by (induction t arbitrary: pos) (simp_all add: rmatch_marker_no_star)

lemma re_search_no_star:
  "42 \<notin> set t \<Longrightarrow> re_search start_pattern t = None"
  "42 \<notin> set t \<Longrightarrow> re_search end_pattern t = None"
  by (simp_all add: re_search_def start_pattern_def end_pattern_def re_search_from_no_star)

lemma normalize_crlf:
  "normalize_newlines (concat (replicate k [13, 10])) = replicate k 10"
proof -
  have "py_replace [13, 10] [10] (concat (replicate k [13, 10 :: nat])) = replicate k (10 :: nat)"
    by (induction k) simp_all
  moreover have "py_replace [13] [10] (replicate k (10 :: nat)) = replicate k (10 :: nat)"
    by (rule py_replace_absent) simp_all
  ultimately show ?thesis by (simp add: normalize_newlines_def u_def)
qed

text \<open>
  C6 (as amended).  The fallback slices the text with its line ends normalised, which is
  the input itself when the input has no carriage return.  When the start pattern or the
  end pattern has no match in that text, the content before the substitutions is its
  slice from offset \<open>n div 10\<close> to offset \<open>9 * n div 10\<close>, where \<open>n\<close> is its length: the
  values of \<open>int(0.1 * n)\<close> and \<open>int(0.9 * n)\<close>, for every length below \<open>2 ^ 45\<close>.  When
  that text has 1000 characters the content is its slice from 100 to 900.
  \<open>clean_gutenberg\<close> returns the slice after the substitutions.
\<close>

theorem clean_gutenberg_fallback:
  assumes "t = normalize_newlines text"
    and "re_search start_pattern t = None \<or> re_search end_pattern t = None"
    and "length t < 2 ^ 45"
  shows "story_text t = Inr (py_slice t (int (length t div 10)) (int (9 * length t div 10))) \<and>
     clean_gutenberg text =
       Inr (post_process (py_slice t (int (length t div 10)) (int (9 * length t div 10)))) \<and>
     (length t = 1000 \<longrightarrow> story_text t = Inr (py_slice t 100 900)) \<and>
     (13 \<notin> set text \<longrightarrow> t = text)"
proof -
  have s: "story_text t = Inr (py_slice t (int (length t div 10)) (int (9 * length t div 10)))"
    unfolding story_text_fallback[OF assms(2)]
    by (simp add: int_tenth_div[OF assms(3)] int_nine_tenths_div[OF assms(3)])
  then have c: "clean_gutenberg text =
       Inr (post_process (py_slice t (int (length t div 10)) (int (9 * length t div 10))))"
    by (simp add: clean_gutenberg_eq assms(1)[symmetric])
  have k: "length t = 1000 \<longrightarrow> story_text t = Inr (py_slice t 100 900)"
    using s by auto
  have r: "13 \<notin> set text \<longrightarrow> t = text"
    by (simp add: assms(1) normalize_newlines_absent)
  from s c k r show ?thesis by blast
qed

theorem clean_gutenberg_fallback_witness:
  "story_text (u ''abcdefghij klmno_pqrst uvwxyz 0123456789'') =
     Inr (u ''efghij klmno_pqrst uvwxyz 012345'') \<and>
   clean_gutenberg (u ''abcdefghij klmno_pqrst uvwxyz 0123456789'') =
     Inr (u ''efghij klmnopqrst uvwxyz 012345'')"
proof -
  let ?t = "u ''abcdefghij klmno_pqrst uvwxyz 0123456789''"
  have n: "?t = normalize_newlines ?t"
    by (simp add: normalize_newlines_absent u_def)
  have a: "re_search start_pattern ?t = None \<or> re_search end_pattern ?t = None"
    by (simp add: clean_eval)
  have l: "length ?t < 2 ^ 45" by (simp add: u_def)
  have sl: "py_slice ?t (int (length ?t div 10)) (int (9 * length ?t div 10)) =
            u ''efghij klmno_pqrst uvwxyz 012345''"
    by (simp add: u_def py_slice_def py_slice_index_def)
  have pp: "post_process (u ''efghij klmno_pqrst uvwxyz 012345'') =
            u ''efghij klmnopqrst uvwxyz 012345''"
    by (simp add: post_process_def py_strip_def ci_def u_def is_space_def ci_variants_def
        ascii_lower_def)
  from clean_gutenberg_fallback[OF n a l] show ?thesis
    unfolding sl pp by simp
qed

text \<open>
  The claim as written fails on an input with carriage returns: 500 line ends \<open>\r\n\<close> are
  a marker-free input of 1000 characters, and the content is not its slice from 100 to
  900, of 800 characters, but the 400 newlines from 50 to 450 of the normalised text.
\<close>

theorem clean_gutenberg_crlf_counterexample:
  "length (concat (replicate 500 [13, 10 :: nat])) = 1000 \<and>
   re_search start_pattern (normalize_newlines (concat (replicate 500 [13, 10]))) = None \<and>
   story_text (normalize_newlines (concat (replicate 500 [13, 10]))) = Inr (replicate 400 10)"
proof -
  let ?t = "replicate 500 (10 :: nat)"
  have n: "re_search start_pattern ?t = None" by (rule re_search_no_star) simp
  have a: "int_tenth 500 = Inr 50" using int_tenth_div[of 500] by simp
  have b: "int_nine_tenths 500 = Inr 450" using int_nine_tenths_div[of 500] by simp
  have s: "story_text ?t = Inr (replicate 400 10)"
    unfolding story_text_fallback[OF disjI1[OF n]]
    by (simp add: a b py_slice_nat[of _ 50 450, simplified])
  have "length (concat (replicate 500 [13, 10 :: nat])) = 1000"
    by (simp add: length_concat sum_list_replicate)
  with n s show ?thesis by (simp only: normalize_crlf)
qed

subsection \<open>The substitutions\<close>

lemma rmatch_suffix: "rmatch re s = Some t \<Longrightarrow> suffix t s"
proof (induction re s arbitrary: t rule: rmatch.induct)
  case (1 s)
  then show ?case by simp
next
  case (2 a r)
  then show ?case by simp
next
  case (3 a r x xs)
  then show ?case by (auto split: if_splits intro: suffix_ConsI)
next
  case (4 a r)
  then show ?case by simp
next
  case (5 a r x xs)
  then show ?case by (auto split: if_splits option.splits intro: suffix_ConsI)
next
  case (6 a r s)
  then show ?case by simp
next
  case (7 a r)
  then show ?case by simp
next
  case (8 a r x xs)
  then show ?case by (auto split: if_splits option.splits intro: suffix_ConsI)
next
  case (9 p q r s)
  then show ?case by (auto split: option.splits)
qed

lemma rmatch_consumes:
  assumes "rmatch re (x # xs) = Some t" "re = One a # r \<or> re = Plus a # r"
  shows "length t \<le> length xs"
proof -
  from assms obtain r' where "rmatch r' xs = Some t"
    by (auto split: if_splits)
  from rmatch_suffix[OF this] show ?thesis by (rule suffix_length_le)
qed

lemma re_sub_step:
  assumes "re = One a # r \<or> re = Plus a # r"
  shows "re_sub re repl (x # xs) =
     (case rmatch re (x # xs) of
        Some t \<Rightarrow> repl @ re_sub re repl t
      | None \<Rightarrow> x # re_sub re repl xs)"
  using rmatch_consumes[OF _ assms, of x xs] by (simp split: option.splits)

lemma re_sub_set: "set (re_sub re repl s) \<subseteq> set s \<union> set repl"
proof (induction re repl s rule: re_sub.induct)
  case (1 re repl)
  show ?case by simp
next
  case (2 re repl x xs)
  show ?case
  proof (cases "rmatch re (x # xs)")
    case None
    with 2 show ?thesis by auto
  next
    case (Some t)
    from rmatch_suffix[OF Some] have "set t \<subseteq> set (x # xs)" by (rule set_mono_suffix)
    with 2 Some show ?thesis by (cases "length t \<le> length xs") auto
  qed
qed

lemma re_sub_underscores: "95 \<notin> set (re_sub [Plus (Lit 95)] [] s)"
proof (induction "[Plus (Lit 95)]" "[] :: pystr" s rule: re_sub.induct)
  case 1
  show ?case by simp
next
  case (2 x xs)
  show ?case
  proof (cases "x = 95")
    case False
    with 2 show ?thesis by simp
  next
    case True
    obtain t where t: "rmatch [Plus (Lit 95)] (x # xs) = Some t"
    proof -
      have "\<exists>t. rmatch [Star (Lit 95)] xs = Some t"
        by (induction xs) (auto split: option.splits)
      then show ?thesis using that True by auto
    qed
    from rmatch_consumes[OF t] have "length t \<le> length xs" by simp
    with 2 t show ?thesis by simp
  qed
qed

lemma py_strip_set: "set (py_strip s) \<subseteq> set s"
  by (auto simp: py_strip_def dest!: set_dropWhileD)

lemma post_process_no_underscore: "95 \<notin> set (post_process s)"
proof -
  let ?s1 = "re_sub [Plus (Lit 95)] [] s"
  let ?s2 = "re_sub [Plus Space] (u '' '') ?s1"
  let ?s3 = "py_strip ?s2"
  have 1: "95 \<notin> set ?s1" by (rule re_sub_underscores)
  have "set ?s2 \<subseteq> set ?s1 \<union> set (u '' '')" by (rule re_sub_set)
  with 1 have 2: "95 \<notin> set ?s2" by (auto simp: u_def)
  with py_strip_set[of ?s2] have 3: "95 \<notin> set ?s3" by blast
  have "set (post_process s) \<subseteq> set ?s3 \<union> set []"
    unfolding post_process_def Let_def by (rule re_sub_set)
  with 3 show ?thesis by auto
qed

text \<open>
  X3.  Whatever \<open>clean_gutenberg\<close> returns contains no underscore.
\<close>

theorem clean_gutenberg_no_underscore:
  "clean_gutenberg text = Inr s \<Longrightarrow> 95 \<notin> set s"
  by (auto simp: clean_gutenberg_eq post_process_no_underscore split: sum.splits)

theorem clean_gutenberg_no_underscore_witness:
  "clean_gutenberg (u ''a_b c'') = Inr (u ''ab'') \<and> 95 \<notin> set (u ''ab'')"
proof -
  have e: "clean_gutenberg (u ''a_b c'') = Inr (u ''ab'')"
    by (simp add: clean_gutenberg_eq story_text_eq post_process_def clean_eval py_strip_def
        py_slice_def py_slice_index_def int_tenth_def int_nine_tenths_def py_int_mul_def
        round53_def bit_length.simps Let_def)
  from clean_gutenberg_no_underscore[OF e] e show ?thesis by simp
qed

section \<open>Properties of the run over the books\<close>

lemma json_data_ids:
  "map rec_id (json_data stem chunks) =
     map (\<lambda>i. stem @ u ''_'' @ py_str i) [0..<length chunks]"
proof -
  have "map rec_id (json_data stem chunks) =
        map ((\<lambda>i. stem @ u ''_'' @ py_str i) \<circ> fst) (enumerate 0 chunks)"
    by (simp add: json_data_def case_prod_unfold comp_def)
  also have "\<dots> = map (\<lambda>i. stem @ u ''_'' @ py_str i) (map fst (enumerate 0 chunks))"
    by (simp only: map_map)
  finally show ?thesis by simp
qed






lemma decode_digits_append:
  "decode_digits acc (xs @ ys) = decode_digits (decode_digits acc xs) ys"
  by (induction xs arbitrary: acc) simp_all

lemma decode_py_str: "decode_digits 0 (py_str n) = n"
proof (induction n rule: py_str.induct)
  case (1 n)
  show ?case
  proof (cases "n < 10")
    case True
    then show ?thesis by (subst py_str.simps) simp
  next
    case False
    with 1 have "decode_digits 0 (py_str (n div 10)) = n div 10" by simp
    with False show ?thesis
      by (subst py_str.simps) (simp add: decode_digits_append)
  qed
qed

lemma py_str_inj: "py_str i = py_str j \<Longrightarrow> i = j"
  by (metis decode_py_str)

text \<open>
  X1.  The ids of the records written for one book are pairwise distinct.
\<close>

theorem json_data_ids_distinct: "distinct (map rec_id (json_data stem chunks))"
proof -
  have "inj_on (\<lambda>i. stem @ u ''_'' @ py_str i) (set [0..<length chunks])"
    by (rule inj_onI) (simp add: py_str_inj)
  then show ?thesis
    unfolding json_data_ids by (simp add: distinct_map)
qed

section \<open>Texts with both markers\<close>

lemma rmatch_ci:
  "ci_eq w s \<Longrightarrow> rmatch (ci s @ r) (w @ t) = rmatch r t"
  unfolding ci_eq_def by (induction w s rule: list_all2_induct) (simp_all add: ci_def)

lemma ci_variants_upper_not_space:
  assumes "x \<in> set (ci_variants c)" "65 \<le> c" "c \<le> 90"
  shows "\<not> is_space x"
proof -
  from assms have "x = c + 32 \<or> x = c \<or> x = 304 \<or> x = 305 \<or> x = 383 \<or> x = 8490"
    by (auto simp: ci_variants_def ascii_lower_def Let_def split: if_splits)
  with assms(2,3) show ?thesis by (auto simp: is_space_def)
qed

lemma ci_eq_head:
  assumes "ci_eq w s" "upper_word s"
  shows "\<exists>x w'. w = x # w' \<and> \<not> is_space x"
proof -
  from assms(2) obtain c s' where s: "s = c # s'" by (cases s) (auto simp: upper_word_def)
  with assms(1) obtain x w' where w: "w = x # w'" "x \<in> set (ci_variants (of_char c))"
    by (auto simp: ci_eq_def list_all2_Cons2)
  from ci_variants_upper_not_space[OF w(2)] assms(2) s have "\<not> is_space x"
    by (simp add: upper_word_def)
  with w(1) show ?thesis by blast
qed

lemma rmatch_space_word:
  assumes "ci_eq w s" "upper_word s" "rmatch r t = Some res"
  shows "rmatch (Plus Space # ci s @ r) (32 # w @ t) = Some res"
    and "rmatch (Star Space # ci s @ r) (32 # w @ t) = Some res"
proof -
  from ci_eq_head[OF assms(1,2)] obtain x w' where w: "w = x # w'" "\<not> is_space x" by blast
  have m: "rmatch (ci s @ r) (x # w' @ t) = Some res"
    using rmatch_ci[OF assms(1), of r t] assms(3) by (simp add: w(1))
  show "rmatch (Plus Space # ci s @ r) (32 # w @ t) = Some res"
    using m w(2) by (simp add: w(1) space_is_space)
  show "rmatch (Star Space # ci s @ r) (32 # w @ t) = Some res"
    using m w(2) by (simp add: w(1) space_is_space)
qed

lemma rmatch_the_this:
  assumes "ci_eq w ''THIS''"
  shows "rmatch (ci ''THE'' @ r) (w @ t) = None"
proof -
  from assms obtain a b c d where w: "w = [a, b, c, d]"
    "c \<in> set (ci_variants (of_char CHR ''I''))"
    by (auto simp: ci_eq_def list_all2_Cons2)
  from w(2) have "c \<notin> set (ci_variants (of_char CHR ''E''))"
    by (auto simp: ci_variants_def ascii_lower_def)
  then show ?thesis by (simp add: w(1) ci_def)
qed

lemma rmatch_space_article:
  assumes "ci_eq w ''THE'' \<or> ci_eq w ''THIS''" "rmatch r t = Some res"
  shows "rmatch (Plus Space #
            Alt (map (\<lambda>c. CI (of_char c)) ''THE'') (map (\<lambda>c. CI (of_char c)) ''THIS'') # r)
          (32 # w @ t) = Some res"
proof -
  have the_eq: "map One (map (\<lambda>c. CI (of_char c)) ''THE'') = ci ''THE''"
    and this_eq: "map One (map (\<lambda>c. CI (of_char c)) ''THIS'') = ci ''THIS''"
    by (simp_all add: ci_def)
  have up: "upper_word ''THE''" "upper_word ''THIS''" by (simp_all add: upper_word_def)
  from assms(1) obtain x w' where w: "w = x # w'" "\<not> is_space x"
    using ci_eq_head up by blast
  have "rmatch (Alt (map (\<lambda>c. CI (of_char c)) ''THE'') (map (\<lambda>c. CI (of_char c)) ''THIS'') # r)
          (w @ t) = Some res"
    using assms(1)
  proof
    assume "ci_eq w ''THE''"
    from rmatch_ci[OF this, of r t] assms(2) show ?thesis
      by (simp only: rmatch.simps the_eq) simp
  next
    assume h: "ci_eq w ''THIS''"
    from rmatch_the_this[OF h, of r t] rmatch_ci[OF h, of r t] assms(2) show ?thesis
      by (simp only: rmatch.simps the_eq this_eq) simp
  qed
  then show ?thesis using w(2) by (simp add: w(1) space_is_space)
qed

lemma rmatch_stars:
  "rmatch (ci ''***'') (a # b # c # s) = (if a = 42 \<and> b = 42 \<and> c = 42 then Some s else None)"
  by (simp add: ci_def ci_variants_def ascii_lower_def)

lemma rmatch_stars_short:
  "rmatch (ci ''***'') [] = None" "rmatch (ci ''***'') [a] = None"
  "rmatch (ci ''***'') [a, b] = None"
  by (simp_all add: ci_def)

lemma rmatch_lazy_cons:
  "rmatch (LazyStar a # r) (x # xs) =
     (case rmatch r (x # xs) of
        Some t \<Rightarrow> Some t
      | None \<Rightarrow> (if atom_match a x then rmatch (LazyStar a # r) xs else None))"
  by simp

lemma rmatch_lazy_stars: "rmatch (LazyStar Dot # ci ''***'') s = after_stars s"
proof (induction s rule: after_stars.induct)
  case (1 a b c s)
  show ?case
  proof (cases "a = 42 \<and> b = 42 \<and> c = 42")
    case True
    have st: "rmatch (ci ''***'') (a # b # c # s) = Some s"
      by (simp only: rmatch_stars if_P[OF True])
    show ?thesis
      by (subst rmatch_lazy_cons) (simp only: st option.case after_stars.simps if_P[OF True])
  next
    case False
    have st: "rmatch (ci ''***'') (a # b # c # s) = None"
      by (simp only: rmatch_stars if_not_P[OF False])
    have "rmatch (LazyStar Dot # ci ''***'') (a # b # c # s) =
          rmatch (LazyStar Dot # ci ''***'') (b # c # s)"
      by (subst rmatch_lazy_cons) (simp only: st option.case atom_match.simps if_True)
    also have "\<dots> = after_stars (b # c # s)" by (rule "1.IH"[OF False])
    also have "\<dots> = after_stars (a # b # c # s)"
      by (simp only: after_stars.simps if_not_P[OF False])
    finally show ?thesis .
  qed
qed (simp_all add: rmatch_stars_short)

lemma after_stars_exists: "\<exists>res. after_stars (y @ 42 # 42 # 42 # rest) = Some res"
proof (induction y)
  case Nil
  show ?case by simp
next
  case (Cons a y)
  show ?case
  proof (cases y)
    case Nil
    then show ?thesis by simp
  next
    case (Cons b y')
    note yb = this
    show ?thesis
    proof (cases y')
      case Nil
      with Cons.IH yb show ?thesis by simp
    next
      case (Cons c y'')
      with Cons.IH yb show ?thesis by simp
    qed
  qed
qed

lemma after_stars_first:
  "after_stars x = None \<Longrightarrow> after_stars (x @ 32 # 42 # 42 # 42 # rest) = Some rest"
proof (induction x rule: after_stars.induct)
  case (1 a b c s)
  then show ?case by (simp split: if_splits)
qed simp_all

lemma after_stars_space: "after_stars x = None \<Longrightarrow> after_stars (32 # x) = None"
  by (cases x rule: after_stars.cases) simp_all

lemma ci_eq_stars: "ci_eq (u ''***'') ''***''"
  by (simp add: ci_eq_def u_def ci_variants_def ascii_lower_def)

lemma marker_match:
  assumes "marker_words kw ws" "upper_word kw"
    and "after_stars (32 # x @ u '' ***'' @ rest) = Some res"
  shows "rmatch (marker_pattern kw) (marker_text ws x @ rest) = Some res"
proof -
  from assms(1) obtain w1 w2 w3 w4 w5 w6 where
    ws: "ws = [w1, w2, w3, w4, w5, w6]" and
    w: "ci_eq w1 kw" "ci_eq w2 ''OF''" "ci_eq w3 ''THE'' \<or> ci_eq w3 ''THIS''"
       "ci_eq w4 ''PROJECT''" "ci_eq w5 ''GUTENBERG''" "ci_eq w6 ''EBOOK''"
    unfolding marker_words_def by (auto simp: list_all2_Cons2)
  have up: "upper_word ''OF''" "upper_word ''PROJECT''" "upper_word ''GUTENBERG''"
    "upper_word ''EBOOK''"
    by (simp_all add: upper_word_def)
  let ?t6 = "32 # x @ u '' ***'' @ rest"
  let ?r6 = "LazyStar Dot # ci ''***''"
  have s6: "rmatch ?r6 ?t6 = Some res"
    by (simp only: rmatch_lazy_stars assms(3))
  let ?t5 = "32 # w6 @ ?t6"
  let ?r5 = "Plus Space # ci ''EBOOK'' @ ?r6"
  have s5: "rmatch ?r5 ?t5 = Some res"
    by (rule rmatch_space_word(1)[OF w(6) up(4) s6])
  let ?t4 = "32 # w5 @ ?t5"
  let ?r4 = "Plus Space # ci ''GUTENBERG'' @ ?r5"
  have s4: "rmatch ?r4 ?t4 = Some res"
    by (rule rmatch_space_word(1)[OF w(5) up(3) s5])
  let ?t3 = "32 # w4 @ ?t4"
  let ?r3 = "Plus Space # ci ''PROJECT'' @ ?r4"
  have s3: "rmatch ?r3 ?t3 = Some res"
    by (rule rmatch_space_word(1)[OF w(4) up(2) s4])
  let ?t2 = "32 # w3 @ ?t3"
  let ?r2 = "Plus Space #
     Alt (map (\<lambda>c. CI (of_char c)) ''THE'') (map (\<lambda>c. CI (of_char c)) ''THIS'') # ?r3"
  have s2: "rmatch ?r2 ?t2 = Some res"
    by (rule rmatch_space_article[OF w(3) s3])
  let ?t1 = "32 # w2 @ ?t2"
  let ?r1 = "Plus Space # ci ''OF'' @ ?r2"
  have s1: "rmatch ?r1 ?t1 = Some res"
    by (rule rmatch_space_word(1)[OF w(2) up(1) s2])
  let ?t0 = "32 # w1 @ ?t1"
  let ?r0 = "Star Space # ci kw @ ?r1"
  have s0: "rmatch ?r0 ?t0 = Some res"
    by (rule rmatch_space_word(2)[OF w(1) assms(2) s1])
  have "rmatch (ci ''***'' @ ?r0) (u ''***'' @ ?t0) = Some res"
    by (simp only: rmatch_ci[OF ci_eq_stars] s0)
  moreover have "marker_pattern kw = ci ''***'' @ ?r0"
    by (simp add: marker_pattern_def)
  moreover have "marker_text ws x @ rest = u ''***'' @ ?t0"
    by (simp add: marker_text_def ws)
  ultimately show ?thesis by simp
qed

lemma re_search_from_found:
  assumes "\<forall>p<k. rmatch re (drop p t) = None" "k \<le> length t"
    and "rmatch re (drop k t) = Some res"
  shows "re_search_from re pos t = Some (pos + k, pos + k + (length t - k - length res))"
  using assms
proof (induction k arbitrary: t pos)
  case 0
  then show ?case by (cases t) simp_all
next
  case (Suc k)
  then obtain x xs where t: "t = x # xs" by (cases t) auto
  from Suc.prems(1) have "rmatch re (drop 0 t) = None" by blast
  then have n: "rmatch re (x # xs) = None" by (simp add: t)
  have "\<forall>p<k. rmatch re (drop p xs) = None"
  proof (intro allI impI)
    fix p assume "p < k"
    then have "Suc p < Suc k" by simp
    with Suc.prems(1) have "rmatch re (drop (Suc p) t) = None" by blast
    then show "rmatch re (drop p xs) = None" by (simp add: t)
  qed
  moreover have "k \<le> length xs" using Suc.prems(2) by (simp add: t)
  moreover have "rmatch re (drop k xs) = Some res" using Suc.prems(3) by (simp add: t)
  ultimately have "re_search_from re (Suc pos) xs =
      Some (Suc pos + k, Suc pos + k + (length xs - k - length res))"
    by (rule Suc.IH)
  then show ?case by (simp add: t n)
qed

lemma re_search_from_before:
  "re_search_from re pos t = Some (s, e) \<Longrightarrow>
   pos \<le> s \<and> (\<forall>p < s - pos. rmatch re (drop p t) = None)"
proof (induction t arbitrary: pos)
  case Nil
  then show ?case by (auto split: option.splits)
next
  case (Cons x xs)
  show ?case
  proof (cases "rmatch re (x # xs)")
    case (Some r)
    with Cons.prems show ?thesis by simp
  next
    case None
    with Cons.prems have "re_search_from re (Suc pos) xs = Some (s, e)" by simp
    from Cons.IH[OF this] have le: "Suc pos \<le> s"
      and b: "\<forall>p < s - Suc pos. rmatch re (drop p xs) = None" by simp_all
    have "rmatch re (drop p (x # xs)) = None" if "p < s - pos" for p
    proof (cases p)
      case 0
      then show ?thesis by (simp add: None)
    next
      case (Suc q)
      with that have "q < s - Suc pos" by simp
      with b show ?thesis by (simp add: Suc)
    qed
    with le show ?thesis by simp
  qed
qed

lemma re_search_before:
  "re_search re t = Some (s, e) \<Longrightarrow> \<forall>p < s. rmatch re (drop p t) = None"
  using re_search_from_before[of re 0 t s e] by (simp add: re_search_def)

lemma upper_markers: "upper_word ''START''" "upper_word ''END''"
  by (simp_all add: upper_word_def)

lemma marker_tail_exists:
  "\<exists>res. after_stars (32 # x @ u '' ***'' @ rest) = Some res"
  using after_stars_exists[of "32 # x @ [32]" rest] by (simp add: u_def)

lemma marker_tail_first:
  "after_stars x = None \<Longrightarrow> after_stars (32 # x @ u '' ***'' @ rest) = Some rest"
  using after_stars_first[OF after_stars_space, of x rest] by (simp add: u_def)

text \<open>
  C5 (as amended).  Let the text, with its line ends normalised, have the form
  \<open>*** START OF THE PROJECT GUTENBERG EBOOK X ***BODY*** END OF THE PROJECT GUTENBERG EBOOK X' ***\<close>,
  the six words of each marker in any case and with \<open>THE\<close> or \<open>THIS\<close>, where \<open>X\<close> does not
  contain \<open>***\<close> and no match of the end pattern begins before the closing marker.  Then
  the content between the end of the first start match and the start of the first end
  match, trimmed, is \<open>BODY\<close> trimmed, and \<open>clean_gutenberg\<close> returns it after all four
  substitutions of the source: underscores removed, whitespace runs collapsed, the ends
  trimmed, and \<open>contents I.\<close> removed.
\<close>

theorem clean_gutenberg_markers:
  assumes "marker_words ''START'' ws" "marker_words ''END'' ws'"
    and "after_stars x = None"
    and "normalize_newlines text = marker_text ws x @ body @ marker_text ws' x'"
    and "\<forall>p < length (marker_text ws x @ body).
           rmatch end_pattern (drop p (normalize_newlines text)) = None"
  shows "story_text (normalize_newlines text) = Inr (py_strip body) \<and>
         clean_gutenberg text = Inr (post_process (py_strip body))"
proof -
  let ?t = "normalize_newlines text"
  let ?m = "marker_text ws x"
  let ?e = "marker_text ws' x'"
  have t: "?t = ?m @ body @ ?e" by (rule assms(4))
  have ne: "?m \<noteq> []" by (simp add: marker_text_def u_def)
  have "rmatch start_pattern (?m @ body @ ?e) = Some (body @ ?e)"
    unfolding start_pattern_def
    by (rule marker_match[OF assms(1) upper_markers(1) marker_tail_first[OF assms(3)]])
  then have "re_search_from start_pattern 0 ?t =
      Some (0 + 0, 0 + 0 + (length ?t - 0 - length (body @ ?e)))"
    by (intro re_search_from_found) (simp_all add: t)
  then have st: "re_search start_pattern ?t = Some (0, length ?m)"
    by (simp add: re_search_def t)
  from marker_tail_exists[of x' "[]"] obtain res where
    "after_stars (32 # x' @ u '' ***'' @ []) = Some res" by blast
  from marker_match[OF assms(2) upper_markers(2) this]
  have "rmatch end_pattern (drop (length (?m @ body)) ?t) = Some res"
    by (simp add: end_pattern_def t)
  with assms(5) have "re_search_from end_pattern 0 ?t =
      Some (0 + length (?m @ body),
            0 + length (?m @ body) + (length ?t - length (?m @ body) - length res))"
    by (intro re_search_from_found) (simp_all add: t)
  then obtain e2 where en: "re_search end_pattern ?t = Some (length (?m @ body), e2)"
    by (simp add: re_search_def)
  have "story_text ?t = Inr (py_strip body)"
    using story_text_markers[OF st en] by (simp add: t)
  then show ?thesis by (simp add: clean_gutenberg_eq)
qed

theorem clean_gutenberg_markers_witness:
  "clean_gutenberg (u ''*** Start of this PROJECT GUTENBERG EBOOK Foo ***  a _b  c *** END OF THE PROJECT GUTENBERG EBOOK Foo ***'') =
     Inr (u ''a b c'')"
proof -
  let ?text = "u ''*** Start of this PROJECT GUTENBERG EBOOK Foo ***  a _b  c *** END OF THE PROJECT GUTENBERG EBOOK Foo ***''"
  let ?ws = "[u ''Start'', u ''of'', u ''this'', u ''PROJECT'', u ''GUTENBERG'', u ''EBOOK'']"
  let ?ws' = "[u ''END'', u ''OF'', u ''THE'', u ''PROJECT'', u ''GUTENBERG'', u ''EBOOK'']"
  have 1: "marker_words ''START'' ?ws"
    by (simp add: marker_words_def ci_eq_def u_def ci_variants_def ascii_lower_def)
  have 2: "marker_words ''END'' ?ws'"
    by (simp add: marker_words_def ci_eq_def u_def ci_variants_def ascii_lower_def)
  have 3: "after_stars (u ''Foo'') = None" by (simp add: u_def)
  have 4: "normalize_newlines ?text =
           marker_text ?ws (u ''Foo'') @ u ''  a _b  c '' @ marker_text ?ws' (u ''Foo'')"
    by (simp add: normalize_newlines_def marker_text_def u_def)
  have s: "re_search end_pattern (normalize_newlines ?text) = Some (59, 105)"
    by (simp add: clean_eval)
  have 5: "\<forall>p < length (marker_text ?ws (u ''Foo'') @ u ''  a _b  c '').
             rmatch end_pattern (drop p (normalize_newlines ?text)) = None"
    using re_search_before[OF s] by (simp add: marker_text_def u_def)
  have pp: "post_process (py_strip (u ''  a _b  c '')) = u ''a b c''"
    by (simp add: post_process_def py_strip_def ci_def u_def is_space_def ci_variants_def
        ascii_lower_def)
  from clean_gutenberg_markers[OF 1 2 3 4 5] show ?thesis by (simp add: pp)
qed

text \<open>
  The claim as written fails on a body with an underscore: \<open>a_b\<close> has no whitespace to
  normalise, and \<open>clean_gutenberg\<close> returns \<open>ab\<close>.
\<close>

theorem clean_gutenberg_body_counterexample:
  "clean_gutenberg (u ''*** START OF THE PROJECT GUTENBERG EBOOK X ***a_b*** END OF THE PROJECT GUTENBERG EBOOK X ***'') =
     Inr (u ''ab'') \<and> u ''ab'' \<noteq> u ''a_b''"
  by (simp add: clean_gutenberg_eq story_text_eq post_process_def clean_eval py_strip_def
      py_slice_def py_slice_index_def Let_def)

end
